theory Spec2Isabelle
  imports Main
begin

section \<open>Lazy sequences of tinylazyseq: a model of \<^verbatim>\<open>src/Sequence.ts\<close>\<close>

text \<open>
  The library builds lazy pipelines out of ES6 generators. A \<^verbatim>\<open>Sequence\<close> object holds
  the field \<^verbatim>\<open>_values\<close> (what its generator iterates) and the cached \<^verbatim>\<open>_size\<close>; every
  intermediate operation allocates a subclass instance whose \<^verbatim>\<open>_values\<close> is the upstream
  sequence. Nothing runs until a terminal operation drives \<^verbatim>\<open>[Symbol.iterator]()\<close>.

  The model has three layers.
  \<^item> \<open>cursor\<close>: a generator object (or a built-in iterator), i.e. the local variables of a
    generator body together with the iterator its \<^verbatim>\<open>for ... of\<close> loop is reading.
  \<^item> \<open>step\<close>: one turn of the innermost loop of a cursor. It either yields a value, skips
    (the loop body ran without reaching \<^verbatim>\<open>yield\<close>), finishes, or throws.
  \<^item> \<open>for_of\<close>: the \<^verbatim>\<open>for (const item of this)\<close> loop of a terminal operation,
    including the call of \<^verbatim>\<open>return()\<close> on the iterator when the loop body leaves early.

  Elements have one type \<open>'a\<close>. Numbers that only count upwards from zero (\<^verbatim>\<open>index\<close>,
  \<^verbatim>\<open>taken\<close>, \<^verbatim>\<open>dropped\<close>) are \<open>nat\<close>; the arguments \<^verbatim>\<open>n\<close> and the size hints are
  \<open>int\<close>. The fragment covers array-backed sequences, one-shot iterators and the
  operations concat, constrainOnce, drop, dropWhile, filter, map, take and takeWhile;
  \<^verbatim>\<open>generate\<close>, \<^verbatim>\<open>flatten\<close> and \<^verbatim>\<open>flatMap\<close> are outside of it.
\<close>

subsection \<open>Errors, callbacks and the observable trace\<close>

datatype error = IllegalStateError

text \<open>
  A caller-supplied callback \<^verbatim>\<open>(item, index) => result\<close>. It carries a label so that its
  invocations can be told apart in the trace.
\<close>

type_synonym ('a, 'b) callback = "nat \<times> ('a \<Rightarrow> nat \<Rightarrow> 'b)"

text \<open>
  What an observer of a traversal can see besides the yielded values: a value being pulled
  out of an underlying array or iterator, and a callback being invoked on a value and index.
\<close>

datatype 'a event = Pulled 'a | Called nat 'a nat

definition invoke :: "('a, 'b) callback \<Rightarrow> 'a \<Rightarrow> nat \<Rightarrow> 'b \<times> 'a event list" where
  "invoke cb item index = (snd cb item index, [Called (fst cb) item index])"

subsection \<open>The heap: the only mutable state\<close>

text \<open>
  \<open>iterated\<close> holds the field \<^verbatim>\<open>iterated\<close> of every \<^verbatim>\<open>ConstrainedSequence\<close> object, by
  object identity; \<open>fresh\<close> is the identity the next allocated object receives; \<open>iters\<close>
  holds, for every external one-shot iterator, the values it has not handed out yet.
\<close>

record 'a heap =
  iterated :: "nat \<Rightarrow> bool"
  fresh :: nat
  iters :: "'a list list"

subsection \<open>Generator objects\<close>

text \<open>
  Where a \<^verbatim>\<open>ConstrainedSequence\<close> generator stands: not yet started, suspended at its
  \<^verbatim>\<open>yield\<close> (inside \<^verbatim>\<open>try\<close>), or in the middle of \<^verbatim>\<open>this.iterator.next()\<close>.
\<close>

datatype phase = NotStarted | AtYield | Pulling

datatype 'a cursor =
    ArrayIt "'a list"
  | ExtIt nat
  | SeqGen "'a cursor"
  | ConcatFst "'a cursor" "'a cursor"
  | ConcatSnd "'a cursor"
  | ConstrainedGen phase nat "'a cursor"
  | DropGen nat int "'a cursor"
  | DropWhileGen bool nat "('a, bool) callback" "'a cursor"
  | FilterGen nat "('a, bool) callback" "'a cursor"
  | MapGen nat "('a, 'a) callback" "'a cursor"
  | TakeGen nat int "'a cursor"
  | TakeWhileGen nat "('a, bool) callback" "'a cursor"
  | Finalize "'a cursor"
  | Finished

text \<open>
  \<^item> \<open>ArrayIt xs\<close>: the built-in iterator of an array, \<open>xs\<close> still to come.
  \<^item> \<open>ExtIt i\<close>: a reference to the external one-shot iterator \<open>i\<close> of the heap.
  \<^item> \<open>SeqGen c\<close>: \<^verbatim>\<open>Sequence[Symbol.iterator]\<close>, \<^verbatim>\<open>for (const value of this._values) yield value\<close>.
  \<^item> \<open>ConcatFst a b\<close>, \<open>ConcatSnd b\<close>: \<^verbatim>\<open>ConcatSequence\<close> inside its first, second \<^verbatim>\<open>yield*\<close>.
  \<^item> \<open>ConstrainedGen ph oid it\<close>: the generator of the \<^verbatim>\<open>ConstrainedSequence\<close> object \<open>oid\<close>
    reading \<^verbatim>\<open>this.iterator\<close>. The flag \<^verbatim>\<open>iterated\<close> lets at most one generator of the object
    ever touch \<^verbatim>\<open>this.iterator\<close>, so its state is kept in that generator.
  \<^item> \<open>DropGen dropped n c\<close>, \<open>DropWhileGen yielding index p c\<close>, \<open>FilterGen index p c\<close>,
    \<open>MapGen index f c\<close>, \<open>TakeGen taken n c\<close>, \<open>TakeWhileGen index p c\<close>: the generators of the
    subclasses with their local variables (\<^verbatim>\<open>yielding\<close> of \<^verbatim>\<open>TakeWhileSequence\<close> is true
    whenever that generator is suspended).
  \<^item> \<open>Finalize it\<close>: a \<^verbatim>\<open>ConstrainedSequence\<close> generator that received \<^verbatim>\<open>return()\<close> while
    suspended at its \<^verbatim>\<open>yield\<close> and runs its \<^verbatim>\<open>finally\<close> block, \<^verbatim>\<open>next = this.iterator.next()\<close>.
  \<^item> \<open>Finished\<close>: a completed generator.
\<close>

datatype 'a signal = Yield 'a | Skip | Done | Throw error

text \<open>
  \<^verbatim>\<open>return()\<close> on a generator suspended at a \<^verbatim>\<open>yield\<close>. A \<^verbatim>\<open>for ... of\<close> loop (and
  \<^verbatim>\<open>yield*\<close>) passes it on to the iterator it is reading, and built-in array iterators
  have no \<^verbatim>\<open>return\<close>; the one generator with work to do is \<^verbatim>\<open>ConstrainedSequence\<close>,
  whose \<^verbatim>\<open>finally\<close> pulls once more from \<^verbatim>\<open>this.iterator\<close> (and does not close it).
  The result is the cursor of the work that is left.
\<close>

fun ret :: "'a cursor \<Rightarrow> 'a cursor" where
  "ret (ArrayIt xs) = Finished"
| "ret (ExtIt i) = Finished"
| "ret (SeqGen c) = ret c"
| "ret (ConcatFst a b) = ret a"
| "ret (ConcatSnd b) = ret b"
| "ret (ConstrainedGen ph oid it) = (if ph = AtYield then Finalize it else Finished)"
| "ret (DropGen dropped n c) = ret c"
| "ret (DropWhileGen yielding index p c) = ret c"
| "ret (FilterGen index p c) = ret c"
| "ret (MapGen index f c) = ret c"
| "ret (TakeGen taken n c) = ret c"
| "ret (TakeWhileGen index p c) = ret c"
| "ret (Finalize it) = Finished"
| "ret Finished = Finished"

text \<open>One turn of the innermost loop of a generator.\<close>

fun step :: "'a cursor \<Rightarrow> 'a heap \<Rightarrow> 'a signal \<times> 'a event list \<times> 'a cursor \<times> 'a heap" where
  "step (ArrayIt []) h = (Done, [], ArrayIt [], h)"
| "step (ArrayIt (x # xs)) h = (Yield x, [Pulled x], ArrayIt xs, h)"
| "step (ExtIt i) h =
     (if i < length (iters h) then
        (case iters h ! i of
           [] \<Rightarrow> (Done, [], ExtIt i, h)
         | x # xs \<Rightarrow> (Yield x, [Pulled x], ExtIt i, h\<lparr>iters := (iters h)[i := xs]\<rparr>))
      else (Done, [], ExtIt i, h))"
| "step (SeqGen c) h =
     (case step c h of
        (Yield value, es, c', h') \<Rightarrow> (Yield value, es, SeqGen c', h')
      | (Skip, es, c', h') \<Rightarrow> (Skip, es, SeqGen c', h')
      | (Done, es, c', h') \<Rightarrow> (Done, es, Finished, h')
      | (Throw e, es, c', h') \<Rightarrow> (Throw e, es, Finished, h'))"
| "step (ConcatFst a b) h =
     (case step a h of
        (Yield value, es, a', h') \<Rightarrow> (Yield value, es, ConcatFst a' b, h')
      | (Skip, es, a', h') \<Rightarrow> (Skip, es, ConcatFst a' b, h')
      | (Done, es, a', h') \<Rightarrow> (Skip, es, ConcatSnd b, h')
      | (Throw e, es, a', h') \<Rightarrow> (Throw e, es, Finished, h'))"
| "step (ConcatSnd b) h =
     (case step b h of
        (Yield value, es, b', h') \<Rightarrow> (Yield value, es, ConcatSnd b', h')
      | (Skip, es, b', h') \<Rightarrow> (Skip, es, ConcatSnd b', h')
      | (Done, es, b', h') \<Rightarrow> (Done, es, Finished, h')
      | (Throw e, es, b', h') \<Rightarrow> (Throw e, es, Finished, h'))"
| "step (ConstrainedGen ph oid it) h =
     (if ph = NotStarted \<and> iterated h oid then (Throw IllegalStateError, [], Finished, h)
      else
        (case step it (if ph = NotStarted then h\<lparr>iterated := (iterated h)(oid := True)\<rparr> else h) of
           (Yield value, es, it', h') \<Rightarrow> (Yield value, es, ConstrainedGen AtYield oid it', h')
         | (Skip, es, it', h') \<Rightarrow> (Skip, es, ConstrainedGen Pulling oid it', h')
         | (Done, es, it', h') \<Rightarrow> (Done, es, Finished, h')
         | (Throw e, es, it', h') \<Rightarrow> (Throw e, es, Finished, h')))"
| "step (DropGen dropped n c) h =
     (case step c h of
        (Yield value, es, c', h') \<Rightarrow>
          (if int dropped \<ge> n then (Yield value, es, DropGen (dropped + 1) n c', h')
           else (Skip, es, DropGen (dropped + 1) n c', h'))
      | (Skip, es, c', h') \<Rightarrow> (Skip, es, DropGen dropped n c', h')
      | (Done, es, c', h') \<Rightarrow> (Done, es, Finished, h')
      | (Throw e, es, c', h') \<Rightarrow> (Throw e, es, Finished, h'))"
| "step (DropWhileGen yielding index p c) h =
     (case step c h of
        (Yield value, es, c', h') \<Rightarrow>
          (case invoke p value index of (b, ps) \<Rightarrow>
             (let yielding' = (if \<not> b then True else yielding) in
              if yielding' then (Yield value, es @ ps, DropWhileGen yielding' (index + 1) p c', h')
              else (Skip, es @ ps, DropWhileGen yielding' (index + 1) p c', h')))
      | (Skip, es, c', h') \<Rightarrow> (Skip, es, DropWhileGen yielding index p c', h')
      | (Done, es, c', h') \<Rightarrow> (Done, es, Finished, h')
      | (Throw e, es, c', h') \<Rightarrow> (Throw e, es, Finished, h'))"
| "step (FilterGen index p c) h =
     (case step c h of
        (Yield value, es, c', h') \<Rightarrow>
          (case invoke p value index of (b, ps) \<Rightarrow>
             if b then (Yield value, es @ ps, FilterGen (index + 1) p c', h')
             else (Skip, es @ ps, FilterGen (index + 1) p c', h'))
      | (Skip, es, c', h') \<Rightarrow> (Skip, es, FilterGen index p c', h')
      | (Done, es, c', h') \<Rightarrow> (Done, es, Finished, h')
      | (Throw e, es, c', h') \<Rightarrow> (Throw e, es, Finished, h'))"
| "step (MapGen index f c) h =
     (case step c h of
        (Yield value, es, c', h') \<Rightarrow>
          (case invoke f value index of (u, fs) \<Rightarrow>
             (Yield u, es @ fs, MapGen (index + 1) f c', h'))
      | (Skip, es, c', h') \<Rightarrow> (Skip, es, MapGen index f c', h')
      | (Done, es, c', h') \<Rightarrow> (Done, es, Finished, h')
      | (Throw e, es, c', h') \<Rightarrow> (Throw e, es, Finished, h'))"
| "step (TakeGen taken n c) h =
     (case step c h of
        (Yield value, es, c', h') \<Rightarrow>
          (if int taken < n then (Yield value, es, TakeGen (taken + 1) n c', h')
           else (Skip, es, ret c', h'))
      | (Skip, es, c', h') \<Rightarrow> (Skip, es, TakeGen taken n c', h')
      | (Done, es, c', h') \<Rightarrow> (Done, es, Finished, h')
      | (Throw e, es, c', h') \<Rightarrow> (Throw e, es, Finished, h'))"
| "step (TakeWhileGen index p c) h =
     (case step c h of
        (Yield value, es, c', h') \<Rightarrow>
          (case invoke p value index of (b, ps) \<Rightarrow>
             if \<not> b then (Skip, es @ ps, ret c', h')
             else (Yield value, es @ ps, TakeWhileGen (index + 1) p c', h'))
      | (Skip, es, c', h') \<Rightarrow> (Skip, es, TakeWhileGen index p c', h')
      | (Done, es, c', h') \<Rightarrow> (Done, es, Finished, h')
      | (Throw e, es, c', h') \<Rightarrow> (Throw e, es, Finished, h'))"
| "step (Finalize it) h =
     (case step it h of
        (Yield value, es, it', h') \<Rightarrow> (Done, es, Finished, h')
      | (Skip, es, it', h') \<Rightarrow> (Skip, es, Finalize it', h')
      | (Done, es, it', h') \<Rightarrow> (Done, es, Finished, h')
      | (Throw e, es, it', h') \<Rightarrow> (Throw e, es, Finished, h'))"
| "step Finished h = (Done, [], Finished, h)"

subsection \<open>Every loop over a cursor ends\<close>

text \<open>
  Arrays are finite and every external iterator of the heap has finitely many values left,
  so each turn that does not finish a cursor uses something up: \<open>weight\<close> bounds the turns
  a cursor can make on its own, \<open>pending\<close> counts the values left in the heap.
\<close>

fun weight :: "'a cursor \<Rightarrow> nat" where
  "weight (ArrayIt xs) = length xs"
| "weight (ExtIt i) = 0"
| "weight (SeqGen c) = Suc (weight c)"
| "weight (ConcatFst a b) = Suc (Suc (weight a + weight b))"
| "weight (ConcatSnd b) = Suc (weight b)"
| "weight (ConstrainedGen ph oid it) = Suc (weight it)"
| "weight (DropGen dropped n c) = Suc (weight c)"
| "weight (DropWhileGen yielding index p c) = Suc (weight c)"
| "weight (FilterGen index p c) = Suc (weight c)"
| "weight (MapGen index f c) = Suc (weight c)"
| "weight (TakeGen taken n c) = Suc (weight c)"
| "weight (TakeWhileGen index p c) = Suc (weight c)"
| "weight (Finalize it) = Suc (weight it)"
| "weight Finished = 0"

definition pending :: "'a heap \<Rightarrow> nat" where
  "pending h = sum_list (map length (iters h))"

lemma weight_ret: "weight (ret c) \<le> weight c"
  by (induction c) auto

lemma pending_pull:
  "i < length ls \<Longrightarrow> ls ! i = x # xs \<Longrightarrow>
     Suc (sum_list (map length (ls[i := xs]))) = sum_list (map length ls)"
proof (induction ls arbitrary: i)
  case Nil
  then show ?case by simp
next
  case (Cons l ls)
  then show ?case by (cases i) auto
qed

lemma pending_iterated [simp]: "pending (h\<lparr>iterated := f\<rparr>) = pending h"
  by (simp add: pending_def)

lemma step_decreases:
  "step c h = (sig, es, c', h') \<Longrightarrow>
     pending h' \<le> pending h \<and>
     (sig \<noteq> Done \<longrightarrow> (\<forall>e. sig \<noteq> Throw e) \<longrightarrow> weight c' + pending h' < weight c + pending h)"
proof (induction c arbitrary: sig es c' h' h)
  case (ArrayIt xs)
  then show ?case by (cases xs) auto
next
  case (ExtIt i)
  then show ?case
    using pending_pull [of i "iters h"]
    by (auto simp: pending_def split: if_splits list.splits)
next
  case (SeqGen c)
  obtain s0 e0 c0 h0 where st: "step c h = (s0, e0, c0, h0)" by (cases "step c h") auto
  from SeqGen.IH [OF st] SeqGen.prems st show ?case by (cases s0) auto
next
  case (ConcatFst a b)
  obtain s0 e0 c0 h0 where st: "step a h = (s0, e0, c0, h0)" by (cases "step a h") auto
  from ConcatFst.IH(1) [OF st] ConcatFst.prems st show ?case by (cases s0) auto
next
  case (ConcatSnd c)
  obtain s0 e0 c0 h0 where st: "step c h = (s0, e0, c0, h0)" by (cases "step c h") auto
  from ConcatSnd.IH [OF st] ConcatSnd.prems st show ?case by (cases s0) auto
next
  case (ConstrainedGen ph oid c)
  let ?h = "if ph = NotStarted then h\<lparr>iterated := (iterated h)(oid := True)\<rparr> else h"
  obtain s0 e0 c0 h0 where st: "step c ?h = (s0, e0, c0, h0)" by (cases "step c ?h") auto
  have p: "pending ?h = pending h" by simp
  from ConstrainedGen.IH [OF st] ConstrainedGen.prems st p show ?case
    by (cases s0) (auto split: if_splits)
next
  case (DropGen dropped n c)
  obtain s0 e0 c0 h0 where st: "step c h = (s0, e0, c0, h0)" by (cases "step c h") auto
  from DropGen.IH [OF st] DropGen.prems st show ?case by (cases s0) (auto split: if_splits)
next
  case (DropWhileGen yielding index p c)
  obtain s0 e0 c0 h0 where st: "step c h = (s0, e0, c0, h0)" by (cases "step c h") auto
  from DropWhileGen.IH [OF st] DropWhileGen.prems st show ?case
    by (cases s0) (auto simp: invoke_def split: if_splits)
next
  case (FilterGen index p c)
  obtain s0 e0 c0 h0 where st: "step c h = (s0, e0, c0, h0)" by (cases "step c h") auto
  from FilterGen.IH [OF st] FilterGen.prems st show ?case
    by (cases s0) (auto simp: invoke_def split: if_splits)
next
  case (MapGen index f c)
  obtain s0 e0 c0 h0 where st: "step c h = (s0, e0, c0, h0)" by (cases "step c h") auto
  from MapGen.IH [OF st] MapGen.prems st show ?case
    by (cases s0) (auto simp: invoke_def split: if_splits)
next
  case (TakeGen taken n c)
  obtain s0 e0 c0 h0 where st: "step c h = (s0, e0, c0, h0)" by (cases "step c h") auto
  from TakeGen.IH [OF st] TakeGen.prems st weight_ret [of c0] show ?case
    by (cases s0) (auto split: if_splits)
next
  case (TakeWhileGen index p c)
  obtain s0 e0 c0 h0 where st: "step c h = (s0, e0, c0, h0)" by (cases "step c h") auto
  from TakeWhileGen.IH [OF st] TakeWhileGen.prems st weight_ret [of c0] show ?case
    by (cases s0) (auto simp: invoke_def split: if_splits)
next
  case (Finalize c)
  obtain s0 e0 c0 h0 where st: "step c h = (s0, e0, c0, h0)" by (cases "step c h") auto
  from Finalize.IH [OF st] Finalize.prems st show ?case by (cases s0) auto
next
  case Finished
  then show ?case by auto
qed

lemma step_measure:
  "(Yield v, es, c', h') = step c h \<Longrightarrow> weight c' + pending h' < weight c + pending h"
  "(Skip, es, c', h') = step c h \<Longrightarrow> weight c' + pending h' < weight c + pending h"
  using step_decreases [of c h "Yield v" es c' h'] step_decreases [of c h Skip es c' h']
  by auto

subsection \<open>Driving a cursor\<close>

text \<open>
  \<open>drain\<close> runs a cursor to its end: the values it yields in order, the exception that
  stopped it if any, the trace, and the heap it leaves.
\<close>

function drain ::
  "'a cursor \<Rightarrow> 'a heap \<Rightarrow> 'a list \<times> error option \<times> 'a event list \<times> 'a heap" where
  "drain c h =
     (case step c h of
        (Yield value, es, c', h') \<Rightarrow>
          (case drain c' h' of (vs, r, es', h'') \<Rightarrow> (value # vs, r, es @ es', h''))
      | (Skip, es, c', h') \<Rightarrow>
          (case drain c' h' of (vs, r, es', h'') \<Rightarrow> (vs, r, es @ es', h''))
      | (Done, es, c', h') \<Rightarrow> ([], None, es, h')
      | (Throw e, es, c', h') \<Rightarrow> ([], Some e, es, h'))"
  by pat_completeness auto
termination
  by (relation "measure (\<lambda>(c, h). weight c + pending h)") (auto simp: step_measure)

text \<open>
  What is left of a \<^verbatim>\<open>return()\<close> call, the \<^verbatim>\<open>finally\<close> work of \<open>ret\<close>, is run to its end;
  nobody receives what it yields.
\<close>

definition finish :: "'a cursor \<Rightarrow> 'a heap \<Rightarrow> error option \<times> 'a event list \<times> 'a heap" where
  "finish c h = (case drain c h of (vs, r, es, h') \<Rightarrow> (r, es, h'))"

text \<open>
  \<^verbatim>\<open>for (const item of iterable) body\<close> as the terminal operations use it. The loop body
  reads and writes the local variables \<open>s\<close> of the operation and either goes on
  (\<open>Next\<close>) or leaves with \<^verbatim>\<open>return x\<close> (\<open>Exit\<close>), in which case the iterator receives
  \<^verbatim>\<open>return()\<close>. The result is how the loop was left, the exception thrown if any, the
  trace, and the heap.
\<close>

datatype ('s, 'r) flow = Next 's | Exit 'r

function for_of ::
  "'a cursor \<Rightarrow> ('a \<Rightarrow> 's \<Rightarrow> ('s, 'r) flow \<times> 'a event list) \<Rightarrow> 's \<Rightarrow> 'a heap
     \<Rightarrow> ('s, 'r) flow \<times> error option \<times> 'a event list \<times> 'a heap" where
  "for_of c body s h =
     (case step c h of
        (Yield item, es, c', h') \<Rightarrow>
          (case body item s of
             (Next s', bs) \<Rightarrow>
               (case for_of c' body s' h' of (fl, r, es', h'') \<Rightarrow> (fl, r, es @ bs @ es', h''))
           | (Exit x, bs) \<Rightarrow>
               (case finish (ret c') h' of (r, fs, h'') \<Rightarrow> (Exit x, r, es @ bs @ fs, h'')))
      | (Skip, es, c', h') \<Rightarrow>
          (case for_of c' body s h' of (fl, r, es', h'') \<Rightarrow> (fl, r, es @ es', h''))
      | (Done, es, c', h') \<Rightarrow> (Next s, None, es, h')
      | (Throw e, es, c', h') \<Rightarrow> (Next s, Some e, es, h'))"
  by pat_completeness auto
termination
  by (relation "measure (\<lambda>(c, body, s, h). weight c + pending h)") (auto simp: step_measure)

subsection \<open>Sequence objects\<close>

text \<open>
  One constructor per class of \<^verbatim>\<open>Sequence.ts\<close>. The first two fields of the derived
  classes are what their constructors hand to \<^verbatim>\<open>super\<close>: the upstream sequence stored in
  \<^verbatim>\<open>_values\<close>, and \<^verbatim>\<open>_size\<close>. A plain \<open>Sequence\<close> wraps an array. A
  \<open>ConstrainedSequence\<close> has the empty array as \<^verbatim>\<open>_values\<close> and holds its size, its object
  identity (for the flag \<^verbatim>\<open>iterated\<close> in the heap) and the iterator it was given.
\<close>

datatype 'a sequence =
    Sequence "'a list" int
  | ConstrainedSequence int nat "'a cursor"
  | ConcatSequence "'a sequence" int "'a sequence"
  | DropSequence "'a sequence" int int
  | DropWhileSequence "'a sequence" int "('a, bool) callback"
  | FilteringSequence "'a sequence" int "('a, bool) callback"
  | MapSequence "'a sequence" int "('a, 'a) callback"
  | TakeSequence "'a sequence" int int
  | TakeWhileSequence "'a sequence" int "('a, bool) callback"

text \<open>\<^verbatim>\<open>size()\<close> returns the cached field \<^verbatim>\<open>_size\<close>.\<close>

fun size_seq :: "'a sequence \<Rightarrow> int" where
  "size_seq (Sequence xs sz) = sz"
| "size_seq (ConstrainedSequence sz oid it) = sz"
| "size_seq (ConcatSequence s sz other) = sz"
| "size_seq (DropSequence s sz n) = sz"
| "size_seq (DropWhileSequence s sz p) = sz"
| "size_seq (FilteringSequence s sz p) = sz"
| "size_seq (MapSequence s sz f) = sz"
| "size_seq (TakeSequence s sz n) = sz"
| "size_seq (TakeWhileSequence s sz p) = sz"

text \<open>
  \<open>iterator s\<close> is \<^verbatim>\<open>s[Symbol.iterator]()\<close>, the generator of the class of \<open>s\<close>, before its
  first \<^verbatim>\<open>next()\<close>; the iterators that its loops will open are part of it from the start,
  opening one has no effect. \<open>values_iterator s\<close> is \<^verbatim>\<open>s._values[Symbol.iterator]()\<close>, which
  \<^verbatim>\<open>ConcatSequence\<close> reads from its second operand (\<^verbatim>\<open>yield* this.other["_values"]\<close>).
\<close>

fun iterator :: "'a sequence \<Rightarrow> 'a cursor"
  and values_iterator :: "'a sequence \<Rightarrow> 'a cursor" where
  "iterator (Sequence xs sz) = SeqGen (ArrayIt xs)"
| "iterator (ConstrainedSequence sz oid it) = ConstrainedGen NotStarted oid it"
| "iterator (ConcatSequence s sz other) = ConcatFst (iterator s) (values_iterator other)"
| "iterator (DropSequence s sz n) = DropGen 0 n (iterator s)"
| "iterator (DropWhileSequence s sz p) = DropWhileGen False 0 p (iterator s)"
| "iterator (FilteringSequence s sz p) = FilterGen 0 p (iterator s)"
| "iterator (MapSequence s sz f) = MapGen 0 f (iterator s)"
| "iterator (TakeSequence s sz n) = TakeGen 0 n (iterator s)"
| "iterator (TakeWhileSequence s sz p) = TakeWhileGen 0 p (iterator s)"
| "values_iterator (Sequence xs sz) = ArrayIt xs"
| "values_iterator (ConstrainedSequence sz oid it) = ArrayIt []"
| "values_iterator (ConcatSequence s sz other) = iterator s"
| "values_iterator (DropSequence s sz n) = iterator s"
| "values_iterator (DropWhileSequence s sz p) = iterator s"
| "values_iterator (FilteringSequence s sz p) = iterator s"
| "values_iterator (MapSequence s sz f) = iterator s"
| "values_iterator (TakeSequence s sz n) = iterator s"
| "values_iterator (TakeWhileSequence s sz p) = iterator s"

subsection \<open>Factories and intermediate operations\<close>

text \<open>
  None of them runs a generator: they allocate a node and read \<^verbatim>\<open>size()\<close>. Only the
  allocation of a \<^verbatim>\<open>ConstrainedSequence\<close> touches the heap (its field \<^verbatim>\<open>iterated\<close> starts
  as \<^verbatim>\<open>false\<close>), so the other operations are functions from sequences to sequences.
\<close>

definition new_ConstrainedSequence ::
  "'a cursor \<Rightarrow> int \<Rightarrow> 'a heap \<Rightarrow> 'a sequence \<times> 'a heap" where
  "new_ConstrainedSequence it sz h =
     (ConstrainedSequence sz (fresh h) it,
      h\<lparr>iterated := (iterated h)(fresh h := False), fresh := Suc (fresh h)\<rparr>)"

definition Sequence_of :: "'a list \<Rightarrow> 'a sequence" where
  "Sequence_of args = Sequence args (int (length args))"

text \<open>
  What \<^verbatim>\<open>Sequence.from\<close> can be given in this fragment: an array (an iterable with a
  \<^verbatim>\<open>length\<close>), or a bare iterator, here one of the external iterators of the heap.
  \<^verbatim>\<open>Utils.isIterator\<close> tells them apart.
\<close>

datatype 'a source = Array "'a list" | Iterator nat

fun Sequence_from :: "'a source \<Rightarrow> 'a heap \<Rightarrow> 'a sequence \<times> 'a heap" where
  "Sequence_from (Iterator i) h = new_ConstrainedSequence (ExtIt i) (- 1) h"
| "Sequence_from (Array xs) h = (Sequence xs (int (length xs)), h)"

definition Sequence_empty :: "'a sequence" where
  "Sequence_empty = Sequence [] 0"

definition concat_seq :: "'a sequence \<Rightarrow> 'a sequence \<Rightarrow> 'a sequence" where
  "concat_seq s other =
     (if size_seq s < 0 \<or> size_seq other < 0 then ConcatSequence s (- 1) other
      else ConcatSequence s (size_seq s + size_seq other) other)"

definition constrainOnce :: "'a sequence \<Rightarrow> 'a heap \<Rightarrow> 'a sequence \<times> 'a heap" where
  "constrainOnce s h = new_ConstrainedSequence (iterator s) (size_seq s) h"

definition drop_seq :: "'a sequence \<Rightarrow> int \<Rightarrow> 'a sequence" where
  "drop_seq s n =
     (if size_seq s < 0 then DropSequence s (- 1) n
      else DropSequence s (if size_seq s - n < 0 then 0 else size_seq s - n) n)"

definition dropWhile_seq :: "'a sequence \<Rightarrow> ('a, bool) callback \<Rightarrow> 'a sequence" where
  "dropWhile_seq s predicate = DropWhileSequence s (- 1) predicate"

definition filter_seq :: "'a sequence \<Rightarrow> ('a, bool) callback \<Rightarrow> 'a sequence" where
  "filter_seq s predicate = FilteringSequence s (- 1) predicate"

definition map_seq :: "'a sequence \<Rightarrow> ('a, 'a) callback \<Rightarrow> 'a sequence" where
  "map_seq s transform = MapSequence s (size_seq s) transform"

definition take_seq :: "'a sequence \<Rightarrow> int \<Rightarrow> 'a sequence" where
  "take_seq s n =
     TakeSequence s
       (if size_seq s < 0 then - 1 else if n > size_seq s then size_seq s else n) n"

definition takeWhile_seq :: "'a sequence \<Rightarrow> ('a, bool) callback \<Rightarrow> 'a sequence" where
  "takeWhile_seq s predicate = TakeWhileSequence s (- 1) predicate"

subsection \<open>Terminal operations\<close>

text \<open>
  A terminal operation returns its value or the exception that left it, with the trace of
  the traversals it made and the heap afterwards. \<^verbatim>\<open>undefined\<close> is \<open>None\<close>.
\<close>

type_synonym ('a, 'r) result = "(error + 'r) \<times> 'a event list \<times> 'a heap"

definition find_seq ::
  "'a sequence \<Rightarrow> ('a, bool) callback \<Rightarrow> 'a heap \<Rightarrow> ('a, 'a option) result" where
  "find_seq s predicate h =
     (case for_of (iterator s)
             (\<lambda>item index. case invoke predicate item index of
                (b, ps) \<Rightarrow> (if b then Exit (Some item) else Next (index + 1), ps))
             (0 :: nat) h of
        (fl, Some e, es, h') \<Rightarrow> (Inl e, es, h')
      | (Exit x, None, es, h') \<Rightarrow> (Inr x, es, h')
      | (Next index, None, es, h') \<Rightarrow> (Inr None, es, h'))"

definition first :: "'a sequence \<Rightarrow> 'a heap \<Rightarrow> ('a, 'a option) result" where
  "first s h =
     (case for_of (iterator s) (\<lambda>item u. (Exit (Some item), [])) () h of
        (fl, Some e, es, h') \<Rightarrow> (Inl e, es, h')
      | (Exit x, None, es, h') \<Rightarrow> (Inr x, es, h')
      | (Next u, None, es, h') \<Rightarrow> (Inr None, es, h'))"

definition fold_seq ::
  "'a sequence \<Rightarrow> 'r \<Rightarrow> ('r \<Rightarrow> 'a \<Rightarrow> nat \<Rightarrow> 'r) \<Rightarrow> 'a heap \<Rightarrow> ('a, 'r) result" where
  "fold_seq s initial operation h =
     (case for_of (iterator s)
             (\<lambda>item (index, result). (Next (index + 1, operation result item index), []))
             (0, initial) h of
        (fl, Some e, es, h') \<Rightarrow> (Inl e, es, h')
      | (Exit x, None, es, h') \<Rightarrow> (Inr x, es, h')
      | (Next (index, result), None, es, h') \<Rightarrow> (Inr result, es, h'))"

definition isEmpty :: "'a sequence \<Rightarrow> 'a heap \<Rightarrow> ('a, bool) result" where
  "isEmpty s h =
     (case for_of (iterator s) (\<lambda>item u. (Exit False, [])) () h of
        (fl, Some e, es, h') \<Rightarrow> (Inl e, es, h')
      | (Exit x, None, es, h') \<Rightarrow> (Inr x, es, h')
      | (Next u, None, es, h') \<Rightarrow> (Inr True, es, h'))"

text \<open>
  \<^verbatim>\<open>reduce\<close> returns \<^verbatim>\<open>null\<close> for an empty sequence; otherwise its accumulator starts as
  whatever \<^verbatim>\<open>this.first()\<close> returns, cast to the result type, so the accumulator handed
  to \<^verbatim>\<open>operation\<close> is a value or \<^verbatim>\<open>undefined\<close>.
\<close>

datatype 'a reduced = Null | Result "'a option"

definition reduce ::
  "'a sequence \<Rightarrow> ('a option \<Rightarrow> 'a \<Rightarrow> nat \<Rightarrow> 'a) \<Rightarrow> 'a heap \<Rightarrow> ('a, 'a reduced) result" where
  "reduce s operation h =
     (case isEmpty s h of
        (Inl e, es1, h1) \<Rightarrow> (Inl e, es1, h1)
      | (Inr True, es1, h1) \<Rightarrow> (Inr Null, es1, h1)
      | (Inr False, es1, h1) \<Rightarrow>
          (case first s h1 of
             (Inl e, es2, h2) \<Rightarrow> (Inl e, es1 @ es2, h2)
           | (Inr result0, es2, h2) \<Rightarrow>
               (case for_of (iterator (drop_seq s 1))
                       (\<lambda>item (index, result).
                          (Next (index + 1, Some (operation result item index)), []))
                       (0, result0) h2 of
                  (fl, Some e, es3, h3) \<Rightarrow> (Inl e, es1 @ es2 @ es3, h3)
                | (Exit x, None, es3, h3) \<Rightarrow> (Inr (Result x), es1 @ es2 @ es3, h3)
                | (Next (index, result), None, es3, h3) \<Rightarrow>
                    (Inr (Result result), es1 @ es2 @ es3, h3))))"

definition toArray :: "'a sequence \<Rightarrow> 'a heap \<Rightarrow> ('a, 'a list) result" where
  "toArray s h = fold_seq s [] (\<lambda>acc curr index. acc @ [curr]) h"



subsection \<open>The asynchronous variant\<close>

text \<open>
  \<^verbatim>\<open>AsyncSequence\<close> mirrors \<^verbatim>\<open>Sequence\<close> with \<^verbatim>\<open>for await\<close> loops. The part modelled here is
  a plain \<^verbatim>\<open>AsyncSequence\<close> over an array of promises, given by the values the promises
  resolve to (in order, which is the order \<^verbatim>\<open>for await\<close> hands them out) and \<^verbatim>\<open>_size\<close>.

  A callback of the asynchronous variant returns \<^verbatim>\<open>boolean | Promise<boolean>\<close>: a value at
  hand or a promise that resolves to one. \<^verbatim>\<open>await x\<close> gives the value in both cases; used
  as a condition without \<^verbatim>\<open>await\<close>, a value counts as itself and a promise object counts
  as true. An \<^verbatim>\<open>async\<close> method returns a promise.
\<close>

datatype 'b awaitable = Direct 'b | Promise 'b

fun truthy :: "bool awaitable \<Rightarrow> bool" where
  "truthy (Direct b) = b"
| "truthy (Promise b) = True"

fun await :: "'b awaitable \<Rightarrow> 'b" where
  "await (Direct b) = b"
| "await (Promise b) = b"

datatype 'a async_sequence = AsyncSequence "'a list" int

fun items :: "'a async_sequence \<Rightarrow> 'a list" where
  "items (AsyncSequence vs sz) = vs"


definition AsyncSequence_of :: "'a list \<Rightarrow> 'a async_sequence" where
  "AsyncSequence_of args = AsyncSequence args (int (length args))"

text \<open>
  \<^verbatim>\<open>contains\<close>, \<^verbatim>\<open>containsAll\<close>, \<^verbatim>\<open>findIndex\<close>, \<^verbatim>\<open>findLastIndex\<close> and \<^verbatim>\<open>toString\<close> of
  \<^verbatim>\<open>AsyncSequence\<close>, each with the \<^verbatim>\<open>await\<close>s its body has.
\<close>

fun contains_loop :: "'a list \<Rightarrow> 'a \<Rightarrow> bool" where
  "contains_loop [] value = False"
| "contains_loop (item # rest) value = (if item = value then True else contains_loop rest value)"

definition contains_async :: "'a async_sequence \<Rightarrow> 'a \<Rightarrow> bool awaitable" where
  "contains_async s value = Promise (contains_loop (items s) value)"

fun containsAll_async :: "'a async_sequence \<Rightarrow> 'a list \<Rightarrow> bool awaitable" where
  "containsAll_async s [] = Promise True"
| "containsAll_async s (value # values) =
     (if \<not> truthy (contains_async s value) then Promise False else containsAll_async s values)"

fun findIndex_loop :: "'a list \<Rightarrow> ('a \<Rightarrow> bool awaitable) \<Rightarrow> int \<Rightarrow> int" where
  "findIndex_loop [] predicate index = - 1"
| "findIndex_loop (item # rest) predicate index =
     (if truthy (predicate item) then index else findIndex_loop rest predicate (index + 1))"

definition findIndex_async :: "'a async_sequence \<Rightarrow> ('a \<Rightarrow> bool awaitable) \<Rightarrow> int awaitable" where
  "findIndex_async s predicate = Promise (findIndex_loop (items s) predicate 0)"

fun findLastIndex_loop :: "'a list \<Rightarrow> ('a \<Rightarrow> bool awaitable) \<Rightarrow> int \<Rightarrow> int \<Rightarrow> int" where
  "findLastIndex_loop [] predicate result current = result"
| "findLastIndex_loop (item # rest) predicate result current =
     findLastIndex_loop rest predicate (if await (predicate item) then current else result) (current + 1)"

definition findLastIndex_async :: "'a async_sequence \<Rightarrow> ('a \<Rightarrow> bool awaitable) \<Rightarrow> int awaitable" where
  "findLastIndex_async s predicate = Promise (findLastIndex_loop (items s) predicate (- 1) 0)"


subsection \<open>Auxiliary functions of the statements\<close>

text \<open>The accumulator of a fold over the values of a traversal.\<close>

fun foldi :: "('r \<Rightarrow> 'a \<Rightarrow> nat \<Rightarrow> 'r) \<Rightarrow> nat \<Rightarrow> 'r \<Rightarrow> 'a list \<Rightarrow> 'r" where
  "foldi operation index result [] = result"
| "foldi operation index result (item # rest) =
     foldi operation (index + 1) (operation result item index) rest"

text \<open>The four parts of what \<open>drain\<close> returns.\<close>

definition values_of :: "'a list \<times> error option \<times> 'a event list \<times> 'a heap \<Rightarrow> 'a list" where
  "values_of r = fst r"

definition error_of :: "'a list \<times> error option \<times> 'a event list \<times> 'a heap \<Rightarrow> error option" where
  "error_of r = fst (snd r)"

definition trace_of :: "'a list \<times> error option \<times> 'a event list \<times> 'a heap \<Rightarrow> 'a event list" where
  "trace_of r = fst (snd (snd r))"

definition heap_of :: "'a list \<times> error option \<times> 'a event list \<times> 'a heap \<Rightarrow> 'a heap" where
  "heap_of r = snd (snd (snd r))"

text \<open>
  What iterating a sequence from a given heap yields (up to the end or to the exception
  that stops it), and the trace of that traversal.
\<close>

definition yields :: "'a sequence \<Rightarrow> 'a heap \<Rightarrow> 'a list" where
  "yields s h = values_of (drain (iterator s) h)"

definition trace :: "'a sequence \<Rightarrow> 'a heap \<Rightarrow> 'a event list" where
  "trace s h = trace_of (drain (iterator s) h)"

text \<open>The number of invocations of the callback with a given label in a trace.\<close>

fun is_call :: "nat \<Rightarrow> 'a event \<Rightarrow> bool" where
  "is_call l (Called l' item index) = (l' = l)"
| "is_call l (Pulled item) = False"

definition calls :: "nat \<Rightarrow> 'a event list \<Rightarrow> nat" where
  "calls l es = length (filter (is_call l) es)"

text \<open>
  The suffix of a list that starts at the first value for which the predicate (called with
  the running index) is false, and the prefix that ends just before that value.
\<close>

fun dropWhile_from :: "('a \<Rightarrow> nat \<Rightarrow> bool) \<Rightarrow> nat \<Rightarrow> 'a list \<Rightarrow> 'a list" where
  "dropWhile_from p index [] = []"
| "dropWhile_from p index (v # vs) =
     (if p v index then dropWhile_from p (index + 1) vs else v # vs)"

fun takeWhile_from :: "('a \<Rightarrow> nat \<Rightarrow> bool) \<Rightarrow> nat \<Rightarrow> 'a list \<Rightarrow> 'a list" where
  "takeWhile_from p index [] = []"
| "takeWhile_from p index (v # vs) =
     (if p v index then v # takeWhile_from p (index + 1) vs else [])"

text \<open>
  \<open>later h h'\<close>: every flag \<^verbatim>\<open>iterated\<close> that is set in \<open>h\<close> is set in \<open>h'\<close>. No operation
  resets a flag, so the heaps that follow \<open>h\<close> in a run are later than \<open>h\<close>.
\<close>

definition later :: "'a heap \<Rightarrow> 'a heap \<Rightarrow> bool" where
  "later h h' = (\<forall>oid. iterated h oid \<longrightarrow> iterated h' oid)"

text \<open>
  The \<^verbatim>\<open>ConstrainedSequence\<close> objects whose generators are part of a cursor, and the change
  that the allocation and first traversal of one more object make to a heap.
\<close>

fun oids :: "'a cursor \<Rightarrow> nat set" where
  "oids (ArrayIt xs) = {}"
| "oids (ExtIt i) = {}"
| "oids (SeqGen c) = oids c"
| "oids (ConcatFst a b) = oids a \<union> oids b"
| "oids (ConcatSnd b) = oids b"
| "oids (ConstrainedGen ph oid it) = insert oid (oids it)"
| "oids (DropGen dropped n c) = oids c"
| "oids (DropWhileGen yielding index p c) = oids c"
| "oids (FilterGen index p c) = oids c"
| "oids (MapGen index f c) = oids c"
| "oids (TakeGen taken n c) = oids c"
| "oids (TakeWhileGen index p c) = oids c"
| "oids (Finalize it) = oids it"
| "oids Finished = {}"

definition touch :: "nat \<Rightarrow> bool \<Rightarrow> nat \<Rightarrow> 'a heap \<Rightarrow> 'a heap" where
  "touch oid b n h = h\<lparr>iterated := (iterated h)(oid := b), fresh := n\<rparr>"

text \<open>A heap with one external iterator that still has 1, 2 and 3 to hand out.\<close>

definition example_heap :: "int heap" where
  "example_heap = \<lparr>iterated = (\<lambda>oid. False), fresh = 0, iters = [[1, 2, 3]]\<rparr>"

subsection \<open>Chains of intermediate operations\<close>

text \<open>
  A chain is what \<^verbatim>\<open>map\<close>, \<^verbatim>\<open>filter\<close>, \<^verbatim>\<open>take\<close>, \<^verbatim>\<open>drop\<close>, \<^verbatim>\<open>takeWhile\<close> and \<^verbatim>\<open>dropWhile\<close> build
  on a sequence over a source: an array, or a one-shot iterator (\<open>over_array\<close> tells which).
  \<open>elements\<close> is what the source holds, for an iterator what it still has to hand out, and
  \<open>labels\<close> lists the callbacks of the chain, innermost first.
\<close>

definition elems :: "nat \<Rightarrow> 'a heap \<Rightarrow> 'a list" where
  "elems k h = (if k < length (iters h) then iters h ! k else [])"

fun chain :: "'a sequence \<Rightarrow> bool" where
  "chain (Sequence xs sz) = True"
| "chain (ConstrainedSequence sz oid (ExtIt k)) = True"
| "chain (DropSequence s sz n) = chain s"
| "chain (DropWhileSequence s sz p) = chain s"
| "chain (FilteringSequence s sz p) = chain s"
| "chain (MapSequence s sz f) = chain s"
| "chain (TakeSequence s sz n) = chain s"
| "chain (TakeWhileSequence s sz p) = chain s"
| "chain s = False"

fun over_array :: "'a sequence \<Rightarrow> bool" where
  "over_array (Sequence xs sz) = True"
| "over_array (DropSequence s sz n) = over_array s"
| "over_array (DropWhileSequence s sz p) = over_array s"
| "over_array (FilteringSequence s sz p) = over_array s"
| "over_array (MapSequence s sz f) = over_array s"
| "over_array (TakeSequence s sz n) = over_array s"
| "over_array (TakeWhileSequence s sz p) = over_array s"
| "over_array s = False"

fun elements :: "'a sequence \<Rightarrow> 'a heap \<Rightarrow> 'a list" where
  "elements (Sequence xs sz) h = xs"
| "elements (ConstrainedSequence sz oid (ExtIt k)) h = elems k h"
| "elements (DropSequence s sz n) h = elements s h"
| "elements (DropWhileSequence s sz p) h = elements s h"
| "elements (FilteringSequence s sz p) h = elements s h"
| "elements (MapSequence s sz f) h = elements s h"
| "elements (TakeSequence s sz n) h = elements s h"
| "elements (TakeWhileSequence s sz p) h = elements s h"
| "elements s h = []"

fun labels :: "'a sequence \<Rightarrow> nat list" where
  "labels (DropSequence s sz n) = labels s"
| "labels (DropWhileSequence s sz p) = labels s @ [fst p]"
| "labels (FilteringSequence s sz p) = labels s @ [fst p]"
| "labels (MapSequence s sz f) = labels s @ [fst f]"
| "labels (TakeSequence s sz n) = labels s"
| "labels (TakeWhileSequence s sz p) = labels s @ [fst p]"
| "labels s = []"

text \<open>
  \<open>maps_only s\<close>: every operation of the chain is a \<^verbatim>\<open>map\<close>, so every value of the source
  comes out of \<open>s\<close>. \<open>sees_all l s\<close>: the operation whose callback is labelled \<open>l\<close> sits in
  the chain on top of such a sequence, so it is handed every value that is pulled.
\<close>

fun maps_only :: "'a sequence \<Rightarrow> bool" where
  "maps_only (Sequence xs sz) = True"
| "maps_only (ConstrainedSequence sz oid (ExtIt k)) = True"
| "maps_only (MapSequence s sz f) = maps_only s"
| "maps_only s = False"

fun sees_all :: "nat \<Rightarrow> 'a sequence \<Rightarrow> bool" where
  "sees_all l (DropSequence s sz n) = sees_all l s"
| "sees_all l (DropWhileSequence s sz p) = (if fst p = l then maps_only s else sees_all l s)"
| "sees_all l (FilteringSequence s sz p) = (if fst p = l then maps_only s else sees_all l s)"
| "sees_all l (MapSequence s sz f) = (if fst f = l then maps_only s else sees_all l s)"
| "sees_all l (TakeSequence s sz n) = sees_all l s"
| "sees_all l (TakeWhileSequence s sz p) = (if fst p = l then maps_only s else sees_all l s)"
| "sees_all l s = False"

text \<open>
  The same notions for the generator objects of a chain over an array, which change as the
  traversal proceeds: \<open>csource\<close> is what is left of the array and \<open>cindex l\<close> is the current
  value of the counter \<^verbatim>\<open>index\<close> of the operation labelled \<open>l\<close>.
\<close>

fun plain :: "'a cursor \<Rightarrow> bool" where
  "plain (SeqGen (ArrayIt xs)) = True"
| "plain (DropGen dropped n c) = plain c"
| "plain (DropWhileGen yielding index p c) = plain c"
| "plain (FilterGen index p c) = plain c"
| "plain (MapGen index f c) = plain c"
| "plain (TakeGen taken n c) = plain c"
| "plain (TakeWhileGen index p c) = plain c"
| "plain Finished = True"
| "plain c = False"

fun csource :: "'a cursor \<Rightarrow> 'a list" where
  "csource (SeqGen (ArrayIt xs)) = xs"
| "csource (DropGen dropped n c) = csource c"
| "csource (DropWhileGen yielding index p c) = csource c"
| "csource (FilterGen index p c) = csource c"
| "csource (MapGen index f c) = csource c"
| "csource (TakeGen taken n c) = csource c"
| "csource (TakeWhileGen index p c) = csource c"
| "csource c = []"

fun clabels :: "'a cursor \<Rightarrow> nat list" where
  "clabels (DropGen dropped n c) = clabels c"
| "clabels (DropWhileGen yielding index p c) = clabels c @ [fst p]"
| "clabels (FilterGen index p c) = clabels c @ [fst p]"
| "clabels (MapGen index f c) = clabels c @ [fst f]"
| "clabels (TakeGen taken n c) = clabels c"
| "clabels (TakeWhileGen index p c) = clabels c @ [fst p]"
| "clabels c = []"

fun cindex :: "nat \<Rightarrow> 'a cursor \<Rightarrow> nat" where
  "cindex l (DropGen dropped n c) = cindex l c"
| "cindex l (DropWhileGen yielding index p c) = (if fst p = l then index else cindex l c)"
| "cindex l (FilterGen index p c) = (if fst p = l then index else cindex l c)"
| "cindex l (MapGen index f c) = (if fst f = l then index else cindex l c)"
| "cindex l (TakeGen taken n c) = cindex l c"
| "cindex l (TakeWhileGen index p c) = (if fst p = l then index else cindex l c)"
| "cindex l c = 0"

fun dense :: "'a cursor \<Rightarrow> bool" where
  "dense (SeqGen (ArrayIt xs)) = True"
| "dense (MapGen index f c) = dense c"
| "dense c = False"

fun direct :: "nat \<Rightarrow> 'a cursor \<Rightarrow> bool" where
  "direct l (DropGen dropped n c) = direct l c"
| "direct l (DropWhileGen yielding index p c) = (if fst p = l then dense c else direct l c)"
| "direct l (FilterGen index p c) = (if fst p = l then dense c else direct l c)"
| "direct l (MapGen index f c) = (if fst f = l then dense c else direct l c)"
| "direct l (TakeGen taken n c) = direct l c"
| "direct l (TakeWhileGen index p c) = (if fst p = l then dense c else direct l c)"
| "direct l c = False"

text \<open>
  The values pulled from the array in a trace, and the indices with which the callback
  labelled \<open>l\<close> was invoked, both in the order of the trace.
\<close>

fun pulled :: "'a event list \<Rightarrow> 'a list" where
  "pulled [] = []"
| "pulled (Pulled x # es) = x # pulled es"
| "pulled (Called l v i # es) = pulled es"

fun called :: "nat \<Rightarrow> 'a event list \<Rightarrow> nat list" where
  "called l [] = []"
| "called l (Pulled x # es) = called l es"
| "called l (Called l' v i # es) = (if l' = l then i # called l es else called l es)"

text \<open>
  \<open>advanced lp c i es\<close> describes the trace \<open>es\<close> of a loop over the generator \<open>c\<close> whose body
  invokes the callback labelled \<open>lp\<close> with a counter that starts at \<open>i\<close>: the values pulled are
  a prefix of what was left of the array, every callback was invoked with consecutive indices
  that continue its counter and at most once for each value pulled, and the trace starts with
  a pull. \<open>exact lp c es\<close> adds that the callbacks which are handed every value were invoked
  once for each value pulled.
\<close>

definition advanced :: "nat \<Rightarrow> 'a cursor \<Rightarrow> nat \<Rightarrow> 'a event list \<Rightarrow> bool" where
  "advanced lp c i es \<longleftrightarrow>
     pulled es = take (length (pulled es)) (csource c)
     \<and> (\<forall>l \<in> set (clabels c).
          called l es = [cindex l c ..< cindex l c + length (called l es)]
          \<and> length (called l es) \<le> length (pulled es))
     \<and> called lp es = [i ..< i + length (called lp es)]
     \<and> length (called lp es) \<le> length (pulled es)
     \<and> (es \<noteq> [] \<longrightarrow> hd es = Pulled (hd (csource c)))"

definition exact :: "nat \<Rightarrow> 'a cursor \<Rightarrow> 'a event list \<Rightarrow> bool" where
  "exact lp c es \<longleftrightarrow>
     (\<forall>l. direct l c \<longrightarrow> length (called l es) = length (pulled es))
     \<and> (dense c \<longrightarrow> length (called lp es) = length (pulled es))"

text \<open>
  The generator objects of a chain over either kind of source. Below the operations there
  is the generator of a sequence over an array, the generator of a \<^verbatim>\<open>ConstrainedSequence\<close> over
  an external iterator (which must not have been iterated if it has not started), what is
  left of it after \<^verbatim>\<open>return()\<close>, or nothing. \<open>remaining\<close> is what the source still holds.
  \<open>twin h c\<close> is the generator over an array that holds what the source of \<open>c\<close> holds in the
  heap \<open>h\<close>, with the same operations and counters.
\<close>

fun staged :: "'a heap \<Rightarrow> 'a cursor \<Rightarrow> bool" where
  "staged h (SeqGen (ArrayIt xs)) = True"
| "staged h (ConstrainedGen ph oid (ExtIt k)) = (ph \<noteq> NotStarted \<or> \<not> iterated h oid)"
| "staged h (Finalize (ExtIt k)) = True"
| "staged h Finished = True"
| "staged h (DropGen dropped n c) = staged h c"
| "staged h (DropWhileGen yielding index p c) = staged h c"
| "staged h (FilterGen index p c) = staged h c"
| "staged h (MapGen index f c) = staged h c"
| "staged h (TakeGen taken n c) = staged h c"
| "staged h (TakeWhileGen index p c) = staged h c"
| "staged h c = False"

fun twin :: "'a heap \<Rightarrow> 'a cursor \<Rightarrow> 'a cursor" where
  "twin h (ConstrainedGen ph oid (ExtIt k)) =
     SeqGen (ArrayIt (if k < length (iters h) then iters h ! k else []))"
| "twin h (Finalize it) = Finished"
| "twin h (DropGen dropped n c) = DropGen dropped n (twin h c)"
| "twin h (DropWhileGen yielding index p c) = DropWhileGen yielding index p (twin h c)"
| "twin h (FilterGen index p c) = FilterGen index p (twin h c)"
| "twin h (MapGen index f c) = MapGen index f (twin h c)"
| "twin h (TakeGen taken n c) = TakeGen taken n (twin h c)"
| "twin h (TakeWhileGen index p c) = TakeWhileGen index p (twin h c)"
| "twin h c = c"

fun remaining :: "'a heap \<Rightarrow> 'a cursor \<Rightarrow> 'a list" where
  "remaining h (SeqGen (ArrayIt xs)) = xs"
| "remaining h (ConstrainedGen ph oid (ExtIt k)) = elems k h"
| "remaining h (Finalize (ExtIt k)) = elems k h"
| "remaining h (DropGen dropped n c) = remaining h c"
| "remaining h (DropWhileGen yielding index p c) = remaining h c"
| "remaining h (FilterGen index p c) = remaining h c"
| "remaining h (MapGen index f c) = remaining h c"
| "remaining h (TakeGen taken n c) = remaining h c"
| "remaining h (TakeWhileGen index p c) = remaining h c"
| "remaining h c = []"

text \<open>
  \<open>on_first k s h\<close> is the chain of the operations of \<open>s\<close> built anew over \<^verbatim>\<open>Sequence.of\<close> the
  first \<open>k\<close> values that the source of \<open>s\<close> holds, and \<open>cut k c\<close> the generator \<open>c\<close> over an
  array with only the first \<open>k\<close> of the values that are left.
\<close>

fun cut :: "nat \<Rightarrow> 'a cursor \<Rightarrow> 'a cursor" where
  "cut k (SeqGen (ArrayIt xs)) = SeqGen (ArrayIt (take k xs))"
| "cut k (DropGen dropped n c) = DropGen dropped n (cut k c)"
| "cut k (DropWhileGen yielding index p c) = DropWhileGen yielding index p (cut k c)"
| "cut k (FilterGen index p c) = FilterGen index p (cut k c)"
| "cut k (MapGen index f c) = MapGen index f (cut k c)"
| "cut k (TakeGen taken n c) = TakeGen taken n (cut k c)"
| "cut k (TakeWhileGen index p c) = TakeWhileGen index p (cut k c)"
| "cut k c = c"

fun on_first :: "nat \<Rightarrow> 'a sequence \<Rightarrow> 'a heap \<Rightarrow> 'a sequence" where
  "on_first k (DropSequence s sz n) h = drop_seq (on_first k s h) n"
| "on_first k (DropWhileSequence s sz p) h = dropWhile_seq (on_first k s h) p"
| "on_first k (FilteringSequence s sz p) h = filter_seq (on_first k s h) p"
| "on_first k (MapSequence s sz f) h = map_seq (on_first k s h) f"
| "on_first k (TakeSequence s sz n) h = take_seq (on_first k s h) n"
| "on_first k (TakeWhileSequence s sz p) h = takeWhile_seq (on_first k s h) p"
| "on_first k s h = Sequence_of (take k (elements s h))"

text \<open>
  What a predicate returned at each of its invocations in a trace, in the order of the trace.
\<close>

fun answers :: "('a, bool) callback \<Rightarrow> 'a event list \<Rightarrow> bool list" where
  "answers pr [] = []"
| "answers pr (Pulled x # es) = answers pr es"
| "answers pr (Called l v i # es) =
     (if l = fst pr then snd pr v i # answers pr es else answers pr es)"

text \<open>
  The chain \<^verbatim>\<open>Sequence.from(iterator).map(x => x * 2).filter(x => x > 2)\<close> over the iterator
  of the example heap.
\<close>

definition example_chain :: "int sequence" where
  "example_chain =
     filter_seq
       (map_seq (fst (Sequence_from (Iterator 0) example_heap)) (1, \<lambda>item index. item * 2))
       (2, \<lambda>item index. 2 < item)"

section \<open>Size hints\<close>

text \<open>
  Claim C5. For a sequence whose cached size is a known count (not negative) and every
  \<open>n\<close>, \<open>take(n).size()\<close> is the minimum of \<open>n\<close> and the count, \<open>drop(n).size()\<close> is the
  maximum of 0 and the count minus \<open>n\<close>, and \<open>map(f).size()\<close> is the count; and
  \<open>filter(p).size()\<close> is negative for every sequence, whatever \<open>p\<close> accepts.
\<close>

theorem size_hints:
  assumes "0 \<le> size_seq s"
  shows "size_seq (take_seq s n) = min n (size_seq s)
       \<and> size_seq (drop_seq s n) = max 0 (size_seq s - n)
       \<and> size_seq (map_seq s f) = size_seq s
       \<and> size_seq (filter_seq s' p) < 0"
  using assms by (simp add: take_seq_def drop_seq_def map_seq_def filter_seq_def)

theorem size_hints_witness:
  "0 \<le> size_seq (Sequence_of [1, 2, 3 :: int])
   \<and> size_seq (take_seq (Sequence_of [1, 2, 3 :: int]) 2) = 2
   \<and> size_seq (drop_seq (Sequence_of [1, 2, 3 :: int]) 2) = 1
   \<and> size_seq (map_seq (Sequence_of [1, 2, 3 :: int]) (0, \<lambda>x i. x + 1)) = 3
   \<and> size_seq (filter_seq (Sequence_of [1, 2, 3 :: int]) (1, \<lambda>x i. True)) < 0"
proof -
  have h: "0 \<le> size_seq (Sequence_of [1, 2, 3 :: int])"
    by (simp add: Sequence_of_def)
  show ?thesis
    using h size_hints [OF h, of 2 "(0, \<lambda>x i. x + 1)" "Sequence_of [1, 2, 3 :: int]" "(1, \<lambda>x i. True)"]
    by (simp add: Sequence_of_def)
qed

section \<open>Basic facts about traversals\<close>

declare drain.simps [simp del] for_of.simps [simp del]

lemma drain_Yield:
  "step c h = (Yield v, es, c', h') \<Longrightarrow>
     drain c h = (case drain c' h' of (vs, r, es', h'') \<Rightarrow> (v # vs, r, es @ es', h''))"
  by (subst drain.simps) simp

lemma drain_Skip:
  "step c h = (Skip, es, c', h') \<Longrightarrow>
     drain c h = (case drain c' h' of (vs, r, es', h'') \<Rightarrow> (vs, r, es @ es', h''))"
  by (subst drain.simps) simp

lemma drain_Done: "step c h = (Done, es, c', h') \<Longrightarrow> drain c h = ([], None, es, h')"
  by (subst drain.simps) simp

lemma drain_Throw: "step c h = (Throw e, es, c', h') \<Longrightarrow> drain c h = ([], Some e, es, h')"
  by (subst drain.simps) simp

lemma for_of_Yield_Next:
  "step c h = (Yield v, es, c', h') \<Longrightarrow> body v s = (Next s', bs) \<Longrightarrow>
     for_of c body s h =
       (case for_of c' body s' h' of (fl, r, es', h'') \<Rightarrow> (fl, r, es @ bs @ es', h''))"
  by (subst for_of.simps) simp

lemma for_of_Yield_Exit:
  "step c h = (Yield v, es, c', h') \<Longrightarrow> body v s = (Exit x, bs) \<Longrightarrow>
     for_of c body s h =
       (case finish (ret c') h' of (r, fs, h'') \<Rightarrow> (Exit x, r, es @ bs @ fs, h''))"
  by (subst for_of.simps) simp

lemma for_of_Skip:
  "step c h = (Skip, es, c', h') \<Longrightarrow>
     for_of c body s h =
       (case for_of c' body s h' of (fl, r, es', h'') \<Rightarrow> (fl, r, es @ es', h''))"
  by (subst for_of.simps) simp

lemma for_of_Done: "step c h = (Done, es, c', h') \<Longrightarrow> for_of c body s h = (Next s, None, es, h')"
  by (subst for_of.simps) simp

lemma for_of_Throw:
  "step c h = (Throw e, es, c', h') \<Longrightarrow> for_of c body s h = (Next s, Some e, es, h')"
  by (subst for_of.simps) simp

lemma for_of_fold:
  "for_of c (\<lambda>item (index, result). (Next (index + 1, operation result item index), [])) (i, a) h =
     (case drain c h of (vs, r, es, h') \<Rightarrow>
        (Next (i + length vs, foldi operation i a vs), r, es, h'))"
proof (induction "weight c + pending h" arbitrary: c h i a rule: less_induct)
  case less
  obtain sig es c' h' where st: "step c h = (sig, es, c', h')"
    by (cases "step c h") auto
  show ?case
  proof (cases sig)
    case (Yield v)
    have m: "weight c' + pending h' < weight c + pending h"
      using st Yield step_measure(1) [of v es c' h' c h] by simp
    show ?thesis
      using st Yield less [OF m]
      by (simp add: for_of_Yield_Next [where s' = "(i + 1, operation a v i)" and bs = "[]"]
            drain_Yield split: prod.splits)
  next
    case Skip
    have m: "weight c' + pending h' < weight c + pending h"
      using st Skip step_measure(2) [of es c' h' c h] by simp
    show ?thesis
      using st Skip less [OF m]
      by (simp add: for_of_Skip drain_Skip split: prod.splits)
  next
    case Done
    then show ?thesis using st by (simp add: for_of_Done drain_Done)
  next
    case (Throw e)
    then show ?thesis using st by (simp add: for_of_Throw drain_Throw)
  qed
qed

lemma foldi_append: "foldi (\<lambda>acc curr index. acc @ [curr]) i a vs = a @ vs"
  by (induction vs arbitrary: i a) auto

lemma toArray_drain:
  "toArray s h =
     (case drain (iterator s) h of
        (vs, None, es, h') \<Rightarrow> (Inr vs, es, h')
      | (vs, Some e, es, h') \<Rightarrow> (Inl e, es, h'))"
  unfolding toArray_def fold_seq_def for_of_fold
  by (simp add: foldi_append split: prod.splits option.splits)

lemma drain_take_array:
  "drain (TakeGen taken n (SeqGen (ArrayIt xs))) h =
     (take (nat (n - int taken)) xs, None, map Pulled (take (Suc (nat (n - int taken))) xs), h)"
proof (induction xs arbitrary: taken)
  case Nil
  show ?case by (simp add: drain_Done)
next
  case (Cons x xs)
  show ?case
  proof (cases "int taken < n")
    case True
    then have k: "nat (n - int taken) = Suc (nat (n - int (taken + 1)))"
      by simp
    show ?thesis
      using True Cons [of "taken + 1"]
      by (simp add: drain_Yield k del: of_nat_Suc of_nat_add)
  next
    case False
    then show ?thesis
      by (simp add: drain_Skip drain_Done)
  qed
qed

lemma drain_array: "drain (ArrayIt xs) h = (xs, None, map Pulled xs, h)"
  by (induction xs) (simp_all add: drain_Done drain_Yield)

lemma drain_SeqGen_array: "drain (SeqGen (ArrayIt xs)) h = (xs, None, map Pulled xs, h)"
  by (induction xs) (simp_all add: drain_Done drain_Yield)

lemma drain_ConcatSnd:
  "drain (ConcatSnd b) h = drain b h"
proof (induction "weight b + pending h" arbitrary: b h rule: less_induct)
  case less
  obtain sig es c' h' where st: "step b h = (sig, es, c', h')"
    by (cases "step b h") auto
  show ?case
  proof (cases sig)
    case (Yield v)
    have m: "weight c' + pending h' < weight b + pending h"
      using st Yield step_measure(1) [of v es c' h' b h] by simp
    show ?thesis using st Yield less [OF m] by (simp add: drain_Yield)
  next
    case Skip
    have m: "weight c' + pending h' < weight b + pending h"
      using st Skip step_measure(2) [of es c' h' b h] by simp
    show ?thesis using st Skip less [OF m] by (simp add: drain_Skip)
  next
    case Done
    then show ?thesis using st by (simp add: drain_Done)
  next
    case (Throw e)
    then show ?thesis using st by (simp add: drain_Throw)
  qed
qed

lemma drain_ConcatFst:
  "drain (ConcatFst a b) h =
     (case drain a h of
        (vs, None, es, h') \<Rightarrow>
          (case drain b h' of (ws, r, es', h'') \<Rightarrow> (vs @ ws, r, es @ es', h''))
      | (vs, Some e, es, h') \<Rightarrow> (vs, Some e, es, h'))"
proof (induction "weight a + pending h" arbitrary: a h rule: less_induct)
  case less
  obtain sig es c' h' where st: "step a h = (sig, es, c', h')"
    by (cases "step a h") auto
  show ?case
  proof (cases sig)
    case (Yield v)
    have m: "weight c' + pending h' < weight a + pending h"
      using st Yield step_measure(1) [of v es c' h' a h] by simp
    show ?thesis using st Yield less [OF m]
      by (simp add: drain_Yield split: prod.splits option.splits)
  next
    case Skip
    have m: "weight c' + pending h' < weight a + pending h"
      using st Skip step_measure(2) [of es c' h' a h] by simp
    show ?thesis using st Skip less [OF m]
      by (simp add: drain_Skip split: prod.splits option.splits)
  next
    case Done
    then show ?thesis using st
      by (simp add: drain_Done drain_Skip drain_ConcatSnd split: prod.splits)
  next
    case (Throw e)
    then show ?thesis using st by (simp add: drain_Throw)
  qed
qed

lemma drain_map_array:
  "drain (MapGen index f (SeqGen (ArrayIt xs))) h =
     (map (\<lambda>(i, x). snd f x i) (zip [index ..< index + length xs] xs), None,
      concat (map (\<lambda>(i, x). [Pulled x, Called (fst f) x i]) (zip [index ..< index + length xs] xs)), h)"
proof (induction xs arbitrary: index)
  case Nil
  show ?case by (simp add: drain_Done)
next
  case (Cons x xs)
  have u: "[index ..< index + length (x # xs)] = index # [Suc index ..< Suc index + length xs]"
    by (simp add: upt_rec)
  show ?case
    unfolding u using Cons [of "Suc index"]
    by (simp add: drain_Yield invoke_def)
qed

lemma run_induct [case_names run]:
  assumes "\<And>c h. (\<And>v es c' h'. step c h = (Yield v, es, c', h') \<Longrightarrow> P c' h')
              \<Longrightarrow> (\<And>es c' h'. step c h = (Skip, es, c', h') \<Longrightarrow> P c' h') \<Longrightarrow> P c h"
  shows "P c h"
proof (induction "weight c + pending h" arbitrary: c h rule: less_induct)
  case less
  show ?case
  proof (rule assms)
    fix v es c' h' assume "step c h = (Yield v, es, c', h')"
    then show "P c' h'" using less step_measure(1) [of v es c' h' c h] by simp
  next
    fix es c' h' assume "step c h = (Skip, es, c', h')"
    then show "P c' h'" using less step_measure(2) [of es c' h' c h] by simp
  qed
qed

lemma for_of_exit:
  "for_of c (\<lambda>item u. (Exit (f item), [])) s h =
     (case for_of c (\<lambda>item u. (Exit item, [])) s h of
        (Exit x, r, es, h') \<Rightarrow> (Exit (f x), r, es, h')
      | (Next s', r, es, h') \<Rightarrow> (Next s', r, es, h'))"
proof (induction c h rule: run_induct)
  case (run c h)
  obtain sig es c' h' where st: "step c h = (sig, es, c', h')"
    by (cases "step c h") auto
  show ?case
  proof (cases sig)
    case (Yield v)
    then show ?thesis using st
      by (simp add: for_of_Yield_Exit [where x = "f v" and bs = "[]"]
            for_of_Yield_Exit [where x = v and bs = "[]"] split: prod.splits)
  next
    case Skip
    then show ?thesis using st run(2) [of es c' h']
      by (simp add: for_of_Skip split: prod.splits flow.splits)
  next
    case Done
    then show ?thesis using st by (simp add: for_of_Done)
  next
    case (Throw e)
    then show ?thesis using st by (simp add: for_of_Throw)
  qed
qed

lemma isEmpty_first:
  "isEmpty s h =
     (case first s h of
        (Inl e, es, h') \<Rightarrow> (Inl e, es, h')
      | (Inr None, es, h') \<Rightarrow> (Inr True, es, h')
      | (Inr (Some v), es, h') \<Rightarrow> (Inr False, es, h'))"
  unfolding isEmpty_def first_def
  by (subst for_of_exit [where f = "\<lambda>item. False"], subst for_of_exit [where f = Some])
     (simp split: prod.splits flow.splits option.splits)

lemma containsAll_async_true: "containsAll_async s values = Promise True"
  by (induction "values") (simp_all add: contains_async_def)

lemma calls_append [simp]: "calls l (es @ es') = calls l es + calls l es'"
  by (simp add: calls_def)

lemma calls_Nil [simp]: "calls l [] = 0"
  by (simp add: calls_def)

lemma calls_Cons [simp]: "calls l (e # es) = (if is_call l e then 1 else 0) + calls l es"
  by (simp add: calls_def)

lemma parts [simp]:
  "values_of (vs, r, es, h) = vs" "error_of (vs, r, es, h) = r"
  "trace_of (vs, r, es, h) = es" "heap_of (vs, r, es, h) = h"
  by (simp_all add: values_of_def error_of_def trace_of_def heap_of_def)

lemma drain_DropWhileGen:
  "values_of (drain (DropWhileGen y i p c) h)
     = (if y then values_of (drain c h) else dropWhile_from (snd p) i (values_of (drain c h)))
   \<and> error_of (drain (DropWhileGen y i p c) h) = error_of (drain c h)
   \<and> heap_of (drain (DropWhileGen y i p c) h) = heap_of (drain c h)
   \<and> calls (fst p) (trace_of (drain (DropWhileGen y i p c) h))
       = calls (fst p) (trace_of (drain c h)) + length (values_of (drain c h))"
proof (induction c h arbitrary: y i rule: run_induct)
  case (run c h)
  obtain sig es c' h' where st: "step c h = (sig, es, c', h')"
    by (cases "step c h") auto
  show ?case
  proof (cases sig)
    case (Yield v)
    define y' where "y' = (if \<not> snd p v i then True else y)"
    note st' = st [unfolded Yield]
    note IH = run(1) [OF st', of y' "i + 1"]
    obtain vs r es' h'' where up: "drain c' h' = (vs, r, es', h'')"
      by (cases "drain c' h'") auto
    obtain ws r2 es2 h2 where dn: "drain (DropWhileGen y' (i + 1) p c') h' = (ws, r2, es2, h2)"
      by (cases "drain (DropWhileGen y' (i + 1) p c') h'") auto
    have A: "drain (DropWhileGen y i p c) h =
               (if y' then v # ws else ws, r2, (es @ [Called (fst p) v i]) @ es2, h2)"
    proof (cases y')
      case True
      have "step (DropWhileGen y i p c) h
              = (Yield v, es @ [Called (fst p) v i], DropWhileGen y' (i + 1) p c', h')"
        using st' True by (simp add: invoke_def y'_def)
      from drain_Yield [OF this] True dn show ?thesis by simp
    next
      case False
      have "step (DropWhileGen y i p c) h
              = (Skip, es @ [Called (fst p) v i], DropWhileGen y' (i + 1) p c', h')"
        using st' False by (simp add: invoke_def y'_def)
      from drain_Skip [OF this] False dn show ?thesis by simp
    qed
    have B: "drain c h = (v # vs, r, es @ es', h'')"
      using drain_Yield [OF st'] up by simp
    show ?thesis
      unfolding A B using IH up dn
      by (auto simp: y'_def split: if_splits)
  next
    case Skip
    note st' = st [unfolded Skip]
    note IH = run(2) [OF st', of y i]
    obtain vs r es' h'' where up: "drain c' h' = (vs, r, es', h'')"
      by (cases "drain c' h'") auto
    obtain ws r2 es2 h2 where dn: "drain (DropWhileGen y i p c') h' = (ws, r2, es2, h2)"
      by (cases "drain (DropWhileGen y i p c') h'") auto
    have "step (DropWhileGen y i p c) h = (Skip, es, DropWhileGen y i p c', h')"
      using st' by simp
    from drain_Skip [OF this] dn
    have A: "drain (DropWhileGen y i p c) h = (ws, r2, es @ es2, h2)" by simp
    have B: "drain c h = (vs, r, es @ es', h'')"
      using drain_Skip [OF st'] up by simp
    show ?thesis
      unfolding A B using IH up dn by auto
  next
    case Done
    have s2: "step (DropWhileGen y i p c) h = (Done, es, Finished, h')"
      using st Done by simp
    show ?thesis
      by (simp add: drain_Done [OF s2] drain_Done [OF st [unfolded Done]])
  next
    case (Throw e)
    have s2: "step (DropWhileGen y i p c) h = (Throw e, es, Finished, h')"
      using st Throw by simp
    show ?thesis
      by (simp add: drain_Throw [OF s2] drain_Throw [OF st [unfolded Throw]])
  qed
qed

lemma ret_cases: "ret c = Finished \<or> (\<exists>x. ret c = Finalize x)"
  by (induction c) auto

lemma drain_Finished [simp]: "drain Finished h = ([], None, [], h)"
  by (simp add: drain_Done)

lemma drain_Finalize_values: "values_of (drain (Finalize x) h) = []"
proof (induction x h rule: run_induct)
  case (run x h)
  obtain sig es c' h' where st: "step x h = (sig, es, c', h')"
    by (cases "step x h") auto
  show ?case
  proof (cases sig)
    case (Yield v)
    have "step (Finalize x) h = (Done, es, Finished, h')"
      using st Yield by simp
    from drain_Done [OF this] show ?thesis by simp
  next
    case Skip
    have "step (Finalize x) h = (Skip, es, Finalize c', h')"
      using st Skip by simp
    from drain_Skip [OF this] run(2) [OF st [unfolded Skip]] show ?thesis
      by (cases "drain (Finalize c') h'") auto
  next
    case Done
    have "step (Finalize x) h = (Done, es, Finished, h')"
      using st Done by simp
    from drain_Done [OF this] show ?thesis by simp
  next
    case (Throw e)
    have "step (Finalize x) h = (Throw e, es, Finished, h')"
      using st Throw by simp
    from drain_Throw [OF this] show ?thesis by simp
  qed
qed

lemma drain_ret_values: "values_of (drain (ret c) h) = []"
  using ret_cases [of c] by (auto simp: drain_Finalize_values)

lemma drain_TakeWhileGen_values:
  "values_of (drain (TakeWhileGen i p c) h) = takeWhile_from (snd p) i (values_of (drain c h))"
proof (induction c h arbitrary: i rule: run_induct)
  case (run c h)
  obtain sig es c' h' where st: "step c h = (sig, es, c', h')"
    by (cases "step c h") auto
  show ?case
  proof (cases sig)
    case (Yield v)
    note st' = st [unfolded Yield]
    obtain vs r es' h'' where up: "drain c' h' = (vs, r, es', h'')"
      by (cases "drain c' h'") auto
    have B: "drain c h = (v # vs, r, es @ es', h'')"
      using drain_Yield [OF st'] up by simp
    show ?thesis
    proof (cases "snd p v i")
      case True
      obtain ws r2 es2 h2 where dn: "drain (TakeWhileGen (i + 1) p c') h' = (ws, r2, es2, h2)"
        by (cases "drain (TakeWhileGen (i + 1) p c') h'") auto
      have "step (TakeWhileGen i p c) h
              = (Yield v, es @ [Called (fst p) v i], TakeWhileGen (i + 1) p c', h')"
        using st' True by (simp add: invoke_def)
      from drain_Yield [OF this] dn
      have A: "drain (TakeWhileGen i p c) h = (v # ws, r2, (es @ [Called (fst p) v i]) @ es2, h2)"
        by simp
      show ?thesis
        unfolding A B using run(1) [OF st', of "i + 1"] True up dn by simp
    next
      case False
      obtain ws r2 es2 h2 where dn: "drain (ret c') h' = (ws, r2, es2, h2)"
        by (cases "drain (ret c') h'") auto
      have "step (TakeWhileGen i p c) h = (Skip, es @ [Called (fst p) v i], ret c', h')"
        using st' False by (simp add: invoke_def)
      from drain_Skip [OF this] dn
      have A: "drain (TakeWhileGen i p c) h = (ws, r2, (es @ [Called (fst p) v i]) @ es2, h2)"
        by simp
      show ?thesis
        unfolding A B using drain_ret_values [of c' h'] False dn by simp
    qed
  next
    case Skip
    note st' = st [unfolded Skip]
    obtain vs r es' h'' where up: "drain c' h' = (vs, r, es', h'')"
      by (cases "drain c' h'") auto
    obtain ws r2 es2 h2 where dn: "drain (TakeWhileGen i p c') h' = (ws, r2, es2, h2)"
      by (cases "drain (TakeWhileGen i p c') h'") auto
    have "step (TakeWhileGen i p c) h = (Skip, es, TakeWhileGen i p c', h')"
      using st' by simp
    from drain_Skip [OF this] dn
    have A: "drain (TakeWhileGen i p c) h = (ws, r2, es @ es2, h2)" by simp
    have B: "drain c h = (vs, r, es @ es', h'')"
      using drain_Skip [OF st'] up by simp
    show ?thesis
      unfolding A B using run(2) [OF st', of i] up dn by simp
  next
    case Done
    have "step (TakeWhileGen i p c) h = (Done, es, Finished, h')"
      using st Done by simp
    from drain_Done [OF this] show ?thesis
      by (simp add: drain_Done [OF st [unfolded Done]])
  next
    case (Throw e)
    have "step (TakeWhileGen i p c) h = (Throw e, es, Finished, h')"
      using st Throw by simp
    from drain_Throw [OF this] show ?thesis
      by (simp add: drain_Throw [OF st [unfolded Throw]])
  qed
qed

lemma dropWhile_from_plain: "dropWhile_from (\<lambda>item index. q item) i vs = dropWhile q vs"
  by (induction vs arbitrary: i) auto

lemma takeWhile_from_plain: "takeWhile_from (\<lambda>item index. q item) i vs = takeWhile q vs"
  by (induction vs arbitrary: i) auto

lemma yields_array: "yields (Sequence_of xs) h = xs"
  by (simp add: yields_def Sequence_of_def drain_SeqGen_array)

lemma trace_dropWhile_array:
  "drain (DropWhileGen y index p (SeqGen (ArrayIt xs))) h =
     (if y then xs else dropWhile_from (snd p) index xs, None,
      concat (map (\<lambda>(i, x). [Pulled x, Called (fst p) x i]) (zip [index ..< index + length xs] xs)), h)"
proof (induction xs arbitrary: index y)
  case Nil
  show ?case by (simp add: drain_Done)
next
  case (Cons x xs)
  have u: "[index ..< index + length (x # xs)] = index # [Suc index ..< Suc index + length xs]"
    by (simp add: upt_rec)
  show ?case
    unfolding u using Cons
    by (simp add: drain_Yield drain_Skip invoke_def)
qed

subsection \<open>Flags are only ever set\<close>

lemma later_refl [simp]: "later h h"
  by (simp add: later_def)

lemma later_trans: "later h h' \<Longrightarrow> later h' h'' \<Longrightarrow> later h h''"
  by (simp add: later_def)

lemma later_iters [simp]: "later h (h\<lparr>iters := x\<rparr>)"
  by (simp add: later_def)

lemma step_later: "step c h = (sig, es, c', h') \<Longrightarrow> later h h'"
proof (induction c arbitrary: sig es c' h' h)
  case (ArrayIt xs)
  then show ?case by (cases xs) auto
next
  case (ExtIt i)
  then show ?case by (auto split: if_splits list.splits)
next
  case (SeqGen c)
  obtain s0 e0 c0 h0 where st: "step c h = (s0, e0, c0, h0)" by (cases "step c h") auto
  from SeqGen.IH [OF st] SeqGen.prems st show ?case by (cases s0) auto
next
  case (ConcatFst a b)
  obtain s0 e0 c0 h0 where st: "step a h = (s0, e0, c0, h0)" by (cases "step a h") auto
  from ConcatFst.IH(1) [OF st] ConcatFst.prems st show ?case by (cases s0) auto
next
  case (ConcatSnd c)
  obtain s0 e0 c0 h0 where st: "step c h = (s0, e0, c0, h0)" by (cases "step c h") auto
  from ConcatSnd.IH [OF st] ConcatSnd.prems st show ?case by (cases s0) auto
next
  case (ConstrainedGen ph oid c)
  let ?h = "if ph = NotStarted then h\<lparr>iterated := (iterated h)(oid := True)\<rparr> else h"
  obtain s0 e0 c0 h0 where st: "step c ?h = (s0, e0, c0, h0)" by (cases "step c ?h") auto
  have p: "later h ?h" by (simp add: later_def)
  from later_trans [OF p ConstrainedGen.IH [OF st]] ConstrainedGen.prems st show ?case
    by (cases s0) (auto split: if_splits)
next
  case (DropGen dropped n c)
  obtain s0 e0 c0 h0 where st: "step c h = (s0, e0, c0, h0)" by (cases "step c h") auto
  from DropGen.IH [OF st] DropGen.prems st show ?case by (cases s0) (auto split: if_splits)
next
  case (DropWhileGen yielding index p c)
  obtain s0 e0 c0 h0 where st: "step c h = (s0, e0, c0, h0)" by (cases "step c h") auto
  from DropWhileGen.IH [OF st] DropWhileGen.prems st show ?case
    by (cases s0) (auto simp: invoke_def split: if_splits)
next
  case (FilterGen index p c)
  obtain s0 e0 c0 h0 where st: "step c h = (s0, e0, c0, h0)" by (cases "step c h") auto
  from FilterGen.IH [OF st] FilterGen.prems st show ?case
    by (cases s0) (auto simp: invoke_def split: if_splits)
next
  case (MapGen index f c)
  obtain s0 e0 c0 h0 where st: "step c h = (s0, e0, c0, h0)" by (cases "step c h") auto
  from MapGen.IH [OF st] MapGen.prems st show ?case
    by (cases s0) (auto simp: invoke_def split: if_splits)
next
  case (TakeGen taken n c)
  obtain s0 e0 c0 h0 where st: "step c h = (s0, e0, c0, h0)" by (cases "step c h") auto
  from TakeGen.IH [OF st] TakeGen.prems st show ?case
    by (cases s0) (auto split: if_splits)
next
  case (TakeWhileGen index p c)
  obtain s0 e0 c0 h0 where st: "step c h = (s0, e0, c0, h0)" by (cases "step c h") auto
  from TakeWhileGen.IH [OF st] TakeWhileGen.prems st show ?case
    by (cases s0) (auto simp: invoke_def split: if_splits)
next
  case (Finalize c)
  obtain s0 e0 c0 h0 where st: "step c h = (s0, e0, c0, h0)" by (cases "step c h") auto
  from Finalize.IH [OF st] Finalize.prems st show ?case by (cases s0) auto
next
  case Finished
  then show ?case by auto
qed

lemma drain_later: "later h (heap_of (drain c h))"
proof (induction c h rule: run_induct)
  case (run c h)
  obtain sig es c' h' where st: "step c h = (sig, es, c', h')"
    by (cases "step c h") auto
  note l = step_later [OF st]
  show ?case
  proof (cases sig)
    case (Yield v)
    from run(1) [OF st [unfolded Yield]] l show ?thesis
      by (cases "drain c' h'") (auto simp: drain_Yield [OF st [unfolded Yield]] intro: later_trans)
  next
    case Skip
    from run(2) [OF st [unfolded Skip]] l show ?thesis
      by (cases "drain c' h'") (auto simp: drain_Skip [OF st [unfolded Skip]] intro: later_trans)
  next
    case Done
    then show ?thesis using l st by (simp add: drain_Done)
  next
    case (Throw e)
    then show ?thesis using l st by (simp add: drain_Throw)
  qed
qed

lemma finish_later: "finish c h = (r, es, h') \<Longrightarrow> later h h'"
  using drain_later [of h c] by (cases "drain c h") (auto simp: finish_def)

lemma for_of_later: "for_of c body s h = (fl, r, es, h') \<Longrightarrow> later h h'"
proof (induction c h arbitrary: s fl r es h' rule: run_induct)
  case (run c h)
  obtain sig es0 c0 h0 where st: "step c h = (sig, es0, c0, h0)"
    by (cases "step c h") auto
  note l = step_later [OF st]
  show ?case
  proof (cases sig)
    case (Yield v)
    note st' = st [unfolded Yield]
    obtain fl0 bs where b: "body v s = (fl0, bs)" by (cases "body v s") auto
    show ?thesis
    proof (cases fl0)
      case (Next s')
      obtain fl1 r1 es1 h1 where rec: "for_of c0 body s' h0 = (fl1, r1, es1, h1)"
        by (cases "for_of c0 body s' h0") auto
      from for_of_Yield_Next [where body = body and s = s, OF st' b [unfolded Next]] rec run.prems
      have "h' = h1" by simp
      with run(1) [OF st' rec] l show ?thesis by (auto intro: later_trans)
    next
      case (Exit x)
      obtain r1 fs h1 where f: "finish (ret c0) h0 = (r1, fs, h1)"
        by (cases "finish (ret c0) h0") auto
      from for_of_Yield_Exit [where body = body and s = s, OF st' b [unfolded Exit]] f run.prems
      have "h' = h1" by simp
      with finish_later [OF f] l show ?thesis by (auto intro: later_trans)
    qed
  next
    case Skip
    note st' = st [unfolded Skip]
    obtain fl1 r1 es1 h1 where rec: "for_of c0 body s h0 = (fl1, r1, es1, h1)"
      by (cases "for_of c0 body s h0") auto
    from for_of_Skip [OF st', of body s] rec run.prems have "h' = h1" by simp
    with run(2) [OF st' rec] l show ?thesis by (auto intro: later_trans)
  next
    case Done
    then show ?thesis using l st run.prems by (simp add: for_of_Done)
  next
    case (Throw e)
    then show ?thesis using l st run.prems by (simp add: for_of_Throw)
  qed
qed

lemma constrained_consumed:
  assumes "iterated h oid"
  shows "for_of (ConstrainedGen NotStarted oid it) body s h
           = (Next s, Some IllegalStateError, [], h)"
    and "drain (ConstrainedGen NotStarted oid it) h = ([], Some IllegalStateError, [], h)"
proof -
  have st: "step (ConstrainedGen NotStarted oid it) h = (Throw IllegalStateError, [], Finished, h)"
    using assms by simp
  show "for_of (ConstrainedGen NotStarted oid it) body s h
           = (Next s, Some IllegalStateError, [], h)"
    by (rule for_of_Throw [OF st])
  show "drain (ConstrainedGen NotStarted oid it) h = ([], Some IllegalStateError, [], h)"
    by (rule drain_Throw [OF st])
qed

lemma constrained_step_sets_flag:
  assumes "step (ConstrainedGen NotStarted oid it) h = (sig, es, c', h')"
  shows "iterated h' oid"
proof (cases "iterated h oid")
  case True
  then show ?thesis using assms by simp
next
  case False
  let ?h = "h\<lparr>iterated := (iterated h)(oid := True)\<rparr>"
  obtain s0 e0 c0 h0 where st: "step it ?h = (s0, e0, c0, h0)" by (cases "step it ?h") auto
  have "iterated h0 oid"
    using step_later [OF st] by (simp add: later_def)
  moreover have "h' = h0"
    using assms False st by (cases s0) auto
  ultimately show ?thesis by simp
qed

lemma for_of_after_step:
  assumes "step c h = (sig, es, c1, h1)" and "for_of c body s h = (fl, r, es', h')"
  shows "later h1 h'"
proof (cases sig)
  case (Yield v)
  note st = assms(1) [unfolded Yield]
  obtain fl0 bs where b: "body v s = (fl0, bs)" by (cases "body v s") auto
  show ?thesis
  proof (cases fl0)
    case (Next s')
    obtain fl1 r1 es1 h2 where rec: "for_of c1 body s' h1 = (fl1, r1, es1, h2)"
      by (cases "for_of c1 body s' h1") auto
    from for_of_Yield_Next [where body = body and s = s, OF st b [unfolded Next]] rec assms(2)
    have "h' = h2" by simp
    with for_of_later [OF rec] show ?thesis by simp
  next
    case (Exit x)
    obtain r1 fs h2 where f: "finish (ret c1) h1 = (r1, fs, h2)"
      by (cases "finish (ret c1) h1") auto
    from for_of_Yield_Exit [where body = body and s = s, OF st b [unfolded Exit]] f assms(2)
    have "h' = h2" by simp
    with finish_later [OF f] show ?thesis by simp
  qed
next
  case Skip
  note st = assms(1) [unfolded Skip]
  obtain fl1 r1 es1 h2 where rec: "for_of c1 body s h1 = (fl1, r1, es1, h2)"
    by (cases "for_of c1 body s h1") auto
  from for_of_Skip [OF st, of body s] rec assms(2) have "h' = h2" by simp
  with for_of_later [OF rec] show ?thesis by simp
next
  case Done
  then show ?thesis using assms by (simp add: for_of_Done)
next
  case (Throw e)
  then show ?thesis using assms by (simp add: for_of_Throw)
qed

lemma traversal_sets_flag:
  assumes "for_of (iterator (ConstrainedSequence sz oid it)) body s h = (fl, r, es, h')"
  shows "iterated h' oid"
proof -
  obtain sig es1 c1 h1 where st: "step (ConstrainedGen NotStarted oid it) h = (sig, es1, c1, h1)"
    by (cases "step (ConstrainedGen NotStarted oid it) h") auto
  have "for_of (ConstrainedGen NotStarted oid it) body s h = (fl, r, es, h')"
    using assms by simp
  from for_of_after_step [OF st this] constrained_step_sets_flag [OF st]
  show ?thesis by (simp add: later_def)
qed

lemma drain_constrained_iterator:
  assumes "ph \<noteq> NotStarted" and "i < length (iters h)" and "iters h ! i = xs"
  shows "drain (ConstrainedGen ph oid (ExtIt i)) h
           = (xs, None, map Pulled xs, h\<lparr>iters := (iters h)[i := []]\<rparr>)"
  using assms
proof (induction xs arbitrary: h ph)
  case Nil
  then have "step (ConstrainedGen ph oid (ExtIt i)) h = (Done, [], Finished, h)"
    by simp
  moreover have "(iters h)[i := []] = iters h"
    using Nil by (metis list_update_id)
  ultimately show ?case by (simp add: drain_Done)
next
  case (Cons x xs)
  let ?h = "h\<lparr>iters := (iters h)[i := xs]\<rparr>"
  have st: "step (ConstrainedGen ph oid (ExtIt i)) h
              = (Yield x, [Pulled x], ConstrainedGen AtYield oid (ExtIt i), ?h)"
    using Cons.prems by simp
  have "drain (ConstrainedGen AtYield oid (ExtIt i)) ?h
          = (xs, None, map Pulled xs, ?h\<lparr>iters := (iters ?h)[i := []]\<rparr>)"
    using Cons.prems by (intro Cons.IH) simp_all
  then show ?case
    by (simp add: drain_Yield [OF st])
qed

lemma drain_fresh_iterator:
  assumes "\<not> iterated h oid" and "i < length (iters h)"
  shows "drain (ConstrainedGen NotStarted oid (ExtIt i)) h
           = (iters h ! i, None, map Pulled (iters h ! i),
              h\<lparr>iterated := (iterated h)(oid := True), iters := (iters h)[i := []]\<rparr>)"
proof (cases "iters h ! i")
  case Nil
  have st: "step (ConstrainedGen NotStarted oid (ExtIt i)) h
              = (Done, [], Finished, h\<lparr>iterated := (iterated h)(oid := True)\<rparr>)"
    using assms Nil by simp
  have "(iters h)[i := []] = iters h"
    using Nil by (metis list_update_id)
  then show ?thesis using Nil by (simp add: drain_Done [OF st])
next
  case (Cons x xs)
  let ?h = "h\<lparr>iterated := (iterated h)(oid := True), iters := (iters h)[i := xs]\<rparr>"
  have st: "step (ConstrainedGen NotStarted oid (ExtIt i)) h
              = (Yield x, [Pulled x], ConstrainedGen AtYield oid (ExtIt i), ?h)"
    using assms Cons by simp
  have "drain (ConstrainedGen AtYield oid (ExtIt i)) ?h
          = (xs, None, map Pulled xs, ?h\<lparr>iters := (iters ?h)[i := []]\<rparr>)"
    using assms by (intro drain_constrained_iterator) simp_all
  then show ?thesis using Cons
    by (simp add: drain_Yield [OF st])
qed

subsection \<open>Objects a cursor does not reach\<close>

lemma touch_simps [simp]:
  "iters (touch oid b n h) = iters h"
  "touch oid b n (h\<lparr>iters := x\<rparr>) = (touch oid b n h)\<lparr>iters := x\<rparr>"
  by (simp_all add: touch_def)

lemma touch_iterated: "iterated (touch oid b n h) oid' = (if oid' = oid then b else iterated h oid')"
  by (simp add: touch_def)

lemma touch_other:
  "oid' \<noteq> oid \<Longrightarrow> touch oid b n (h\<lparr>iterated := (iterated h)(oid' := True)\<rparr>)
     = (touch oid b n h)\<lparr>iterated := (iterated (touch oid b n h))(oid' := True)\<rparr>"
  by (simp add: touch_def fun_upd_twist)

lemma oids_ret: "oids (ret c) \<subseteq> oids c"
  by (induction c) auto

lemma step_frame:
  "oid \<notin> oids c \<Longrightarrow> step c h = (sig, es, c', h') \<Longrightarrow>
     step c (touch oid b n h) = (sig, es, c', touch oid b n h') \<and> oids c' \<subseteq> oids c"
proof (induction c arbitrary: sig es c' h' h)
  case (ArrayIt xs)
  then show ?case by (cases xs) auto
next
  case (ExtIt i)
  then show ?case by (auto split: if_splits list.splits)
next
  case (SeqGen c)
  obtain s0 e0 c0 h0 where st: "step c h = (s0, e0, c0, h0)" by (cases "step c h") auto
  from SeqGen.IH [OF _ st] SeqGen.prems st show ?case by (cases s0) auto
next
  case (ConcatFst a b)
  obtain s0 e0 c0 h0 where st: "step a h = (s0, e0, c0, h0)" by (cases "step a h") auto
  from ConcatFst.IH(1) [OF _ st] ConcatFst.prems st show ?case by (cases s0) auto
next
  case (ConcatSnd c)
  obtain s0 e0 c0 h0 where st: "step c h = (s0, e0, c0, h0)" by (cases "step c h") auto
  from ConcatSnd.IH [OF _ st] ConcatSnd.prems st show ?case by (cases s0) auto
next
  case (ConstrainedGen ph oid' c)
  let ?h = "if ph = NotStarted then h\<lparr>iterated := (iterated h)(oid' := True)\<rparr> else h"
  obtain s0 e0 c0 h0 where st: "step c ?h = (s0, e0, c0, h0)" by (cases "step c ?h") auto
  have ne: "oid' \<noteq> oid" and ni: "oid \<notin> oids c"
    using ConstrainedGen.prems by auto
  have t: "touch oid b n ?h
             = (if ph = NotStarted
                then (touch oid b n h)\<lparr>iterated := (iterated (touch oid b n h))(oid' := True)\<rparr>
                else touch oid b n h)"
    using touch_other [OF ne, of b n h] by simp
  have fl: "iterated (touch oid b n h) oid' = iterated h oid'"
    using ne by (simp add: touch_iterated)
  from ConstrainedGen.IH [OF ni st] ConstrainedGen.prems st show ?case
    unfolding t by (cases s0) (auto simp: fl split: if_splits)
next
  case (DropGen dropped n' c)
  obtain s0 e0 c0 h0 where st: "step c h = (s0, e0, c0, h0)" by (cases "step c h") auto
  from DropGen.IH [OF _ st] DropGen.prems st show ?case by (cases s0) (auto split: if_splits)
next
  case (DropWhileGen yielding index p c)
  obtain s0 e0 c0 h0 where st: "step c h = (s0, e0, c0, h0)" by (cases "step c h") auto
  from DropWhileGen.IH [OF _ st] DropWhileGen.prems st show ?case
    by (cases s0) (auto simp: invoke_def split: if_splits)
next
  case (FilterGen index p c)
  obtain s0 e0 c0 h0 where st: "step c h = (s0, e0, c0, h0)" by (cases "step c h") auto
  from FilterGen.IH [OF _ st] FilterGen.prems st show ?case
    by (cases s0) (auto simp: invoke_def split: if_splits)
next
  case (MapGen index f c)
  obtain s0 e0 c0 h0 where st: "step c h = (s0, e0, c0, h0)" by (cases "step c h") auto
  from MapGen.IH [OF _ st] MapGen.prems st show ?case
    by (cases s0) (auto simp: invoke_def split: if_splits)
next
  case (TakeGen taken n' c)
  obtain s0 e0 c0 h0 where st: "step c h = (s0, e0, c0, h0)" by (cases "step c h") auto
  from TakeGen.IH [OF _ st] TakeGen.prems st oids_ret [of c0] show ?case
    by (cases s0) (auto split: if_splits)
next
  case (TakeWhileGen index p c)
  obtain s0 e0 c0 h0 where st: "step c h = (s0, e0, c0, h0)" by (cases "step c h") auto
  from TakeWhileGen.IH [OF _ st] TakeWhileGen.prems st oids_ret [of c0] show ?case
    by (cases s0) (auto simp: invoke_def split: if_splits)
next
  case (Finalize c)
  obtain s0 e0 c0 h0 where st: "step c h = (s0, e0, c0, h0)" by (cases "step c h") auto
  from Finalize.IH [OF _ st] Finalize.prems st show ?case by (cases s0) auto
next
  case Finished
  then show ?case by auto
qed

lemma drain_frame:
  "oid \<notin> oids c \<Longrightarrow>
     drain c (touch oid b n h)
       = (case drain c h of (vs, r, es, h') \<Rightarrow> (vs, r, es, touch oid b n h'))"
proof (induction c h rule: run_induct)
  case (run c h)
  obtain sig es c' h' where st: "step c h = (sig, es, c', h')"
    by (cases "step c h") auto
  note f = step_frame [OF run.prems st, of b n]
  then have st2: "step c (touch oid b n h) = (sig, es, c', touch oid b n h')"
    and ni: "oid \<notin> oids c'"
    using run.prems by auto
  show ?case
  proof (cases sig)
    case (Yield v)
    from run(1) [OF st [unfolded Yield] ni] show ?thesis
      by (simp add: drain_Yield [OF st [unfolded Yield]] drain_Yield [OF st2 [unfolded Yield]]
            split: prod.splits)
  next
    case Skip
    from run(2) [OF st [unfolded Skip] ni] show ?thesis
      by (simp add: drain_Skip [OF st [unfolded Skip]] drain_Skip [OF st2 [unfolded Skip]]
            split: prod.splits)
  next
    case Done
    then show ?thesis using st st2 by (simp add: drain_Done)
  next
    case (Throw e)
    then show ?thesis using st st2 by (simp add: drain_Throw)
  qed
qed

lemma drain_started:
  "ph \<noteq> NotStarted \<Longrightarrow> drain (ConstrainedGen ph oid it) h = drain it h"
proof (induction it h arbitrary: ph rule: run_induct)
  case (run it h)
  obtain sig es c' h' where st: "step it h = (sig, es, c', h')"
    by (cases "step it h") auto
  show ?case
  proof (cases sig)
    case (Yield v)
    have "step (ConstrainedGen ph oid it) h = (Yield v, es, ConstrainedGen AtYield oid c', h')"
      using st Yield run.prems by simp
    from drain_Yield [OF this] run(1) [OF st [unfolded Yield], of AtYield] show ?thesis
      by (simp add: drain_Yield [OF st [unfolded Yield]])
  next
    case Skip
    have "step (ConstrainedGen ph oid it) h = (Skip, es, ConstrainedGen Pulling oid c', h')"
      using st Skip run.prems by simp
    from drain_Skip [OF this] run(2) [OF st [unfolded Skip], of Pulling] show ?thesis
      by (simp add: drain_Skip [OF st [unfolded Skip]])
  next
    case Done
    have "step (ConstrainedGen ph oid it) h = (Done, es, Finished, h')"
      using st Done run.prems by simp
    from drain_Done [OF this] show ?thesis
      by (simp add: drain_Done [OF st [unfolded Done]])
  next
    case (Throw e)
    have "step (ConstrainedGen ph oid it) h = (Throw e, es, Finished, h')"
      using st Throw run.prems by simp
    from drain_Throw [OF this] show ?thesis
      by (simp add: drain_Throw [OF st [unfolded Throw]])
  qed
qed

lemma drain_not_started:
  assumes "\<not> iterated h oid"
  shows "drain (ConstrainedGen NotStarted oid it) h
           = drain it (h\<lparr>iterated := (iterated h)(oid := True)\<rparr>)"
proof -
  let ?h = "h\<lparr>iterated := (iterated h)(oid := True)\<rparr>"
  obtain sig es c' h' where st: "step it ?h = (sig, es, c', h')"
    by (cases "step it ?h") auto
  show ?thesis
  proof (cases sig)
    case (Yield v)
    have "step (ConstrainedGen NotStarted oid it) h
            = (Yield v, es, ConstrainedGen AtYield oid c', h')"
      using st Yield assms by simp
    from drain_Yield [OF this] show ?thesis
      by (simp add: drain_Yield [OF st [unfolded Yield]] drain_started)
  next
    case Skip
    have "step (ConstrainedGen NotStarted oid it) h
            = (Skip, es, ConstrainedGen Pulling oid c', h')"
      using st Skip assms by simp
    from drain_Skip [OF this] show ?thesis
      by (simp add: drain_Skip [OF st [unfolded Skip]] drain_started)
  next
    case Done
    have "step (ConstrainedGen NotStarted oid it) h = (Done, es, Finished, h')"
      using st Done assms by simp
    from drain_Done [OF this] show ?thesis
      by (simp add: drain_Done [OF st [unfolded Done]])
  next
    case (Throw e)
    have "step (ConstrainedGen NotStarted oid it) h = (Throw e, es, Finished, h')"
      using st Throw assms by simp
    from drain_Throw [OF this] show ?thesis
      by (simp add: drain_Throw [OF st [unfolded Throw]])
  qed
qed

lemma drain_constrainOnce:
  assumes "\<forall>oid \<in> oids (iterator s). oid < fresh h"
  shows "drain (iterator (fst (constrainOnce s h))) (snd (constrainOnce s h))
           = (case drain (iterator s) h of
                (vs, r, es, h') \<Rightarrow> (vs, r, es, touch (fresh h) True (Suc (fresh h)) h'))"
proof -
  let ?h0 = "h\<lparr>iterated := (iterated h)(fresh h := False), fresh := Suc (fresh h)\<rparr>"
  have ni: "fresh h \<notin> oids (iterator s)"
    using assms by auto
  have "drain (ConstrainedGen NotStarted (fresh h) (iterator s)) ?h0
          = drain (iterator s) (?h0\<lparr>iterated := (iterated ?h0)(fresh h := True)\<rparr>)"
    by (rule drain_not_started) simp
  also have "?h0\<lparr>iterated := (iterated ?h0)(fresh h := True)\<rparr>
               = touch (fresh h) True (Suc (fresh h)) h"
    by (simp add: touch_def)
  finally have A: "drain (ConstrainedGen NotStarted (fresh h) (iterator s)) ?h0
          = drain (iterator s) (touch (fresh h) True (Suc (fresh h)) h)" .
  have e1: "fst (constrainOnce s h) = ConstrainedSequence (size_seq s) (fresh h) (iterator s)"
    by (simp add: constrainOnce_def new_ConstrainedSequence_def)
  have e2: "snd (constrainOnce s h) = ?h0"
    by (simp add: constrainOnce_def new_ConstrainedSequence_def)
  show ?thesis
    by (simp only: e1 e2 iterator.simps A drain_frame [OF ni])
qed

lemma drain_DropGen:
  "drain (DropGen d n c) h
     = (case drain c h of (vs, r, es, h') \<Rightarrow> (drop (nat (n - int d)) vs, r, es, h'))"
proof (induction c h arbitrary: d rule: run_induct)
  case (run c h)
  obtain sig es c' h' where st: "step c h = (sig, es, c', h')"
    by (cases "step c h") auto
  show ?case
  proof (cases sig)
    case (Yield v)
    note st' = st [unfolded Yield]
    obtain vs r es' h'' where up: "drain c' h' = (vs, r, es', h'')"
      by (cases "drain c' h'") auto
    have B: "drain c h = (v # vs, r, es @ es', h'')"
      using drain_Yield [OF st'] up by simp
    show ?thesis
    proof (cases "int d \<ge> n")
      case True
      have "step (DropGen d n c) h = (Yield v, es, DropGen (d + 1) n c', h')"
        using st' True by simp
      from drain_Yield [OF this] run(1) [OF st', of "d + 1"] up True show ?thesis
        unfolding B by simp
    next
      case False
      then have k: "nat (n - int d) = Suc (nat (n - int (d + 1)))" by simp
      have "step (DropGen d n c) h = (Skip, es, DropGen (d + 1) n c', h')"
        using st' False by simp
      from drain_Skip [OF this] run(1) [OF st', of "d + 1"] up show ?thesis
        unfolding B k by simp
    qed
  next
    case Skip
    note st' = st [unfolded Skip]
    have "step (DropGen d n c) h = (Skip, es, DropGen d n c', h')"
      using st' by simp
    from drain_Skip [OF this] run(2) [OF st', of d] show ?thesis
      by (simp add: drain_Skip [OF st'] split: prod.splits)
  next
    case Done
    have "step (DropGen d n c) h = (Done, es, Finished, h')"
      using st Done by simp
    from drain_Done [OF this] show ?thesis
      by (simp add: drain_Done [OF st [unfolded Done]])
  next
    case (Throw e)
    have "step (DropGen d n c) h = (Throw e, es, Finished, h')"
      using st Throw by simp
    from drain_Throw [OF this] show ?thesis
      by (simp add: drain_Throw [OF st [unfolded Throw]])
  qed
qed

lemma reduce_unfold:
  assumes "isEmpty s h = (Inr False, es1, h1)"
  shows "reduce s operation h =
     (case first s h1 of
        (Inl e, es2, h2) \<Rightarrow> (Inl e, es1 @ es2, h2)
      | (Inr result0, es2, h2) \<Rightarrow>
          (case drain (iterator (drop_seq s 1)) h2 of
             (vs, None, es3, h3) \<Rightarrow>
               (Inr (Result (foldi (\<lambda>acc item index. Some (operation acc item index)) 0 result0 vs)),
                es1 @ es2 @ es3, h3)
           | (vs, Some e, es3, h3) \<Rightarrow> (Inl e, es1 @ es2 @ es3, h3)))"
  unfolding reduce_def assms
    for_of_fold [where operation = "\<lambda>acc item index. Some (operation acc item index)"]
  by (simp split: prod.splits sum.splits option.splits)

lemma isEmpty_sets_flag:
  assumes "isEmpty (ConstrainedSequence sz oid it) h = (r, es, h')"
  shows "iterated h' oid"
proof -
  obtain fl r0 es0 h0 where f:
    "for_of (iterator (ConstrainedSequence sz oid it)) (\<lambda>item (u :: unit). (Exit False, [])) () h
       = (fl, r0, es0, h0)"
    by (cases "for_of (iterator (ConstrainedSequence sz oid it))
                 (\<lambda>item (u :: unit). (Exit False, [])) () h") auto
  from assms have "h' = h0"
    unfolding isEmpty_def f by (auto split: flow.splits option.splits)
  with traversal_sets_flag [OF f] show ?thesis by simp
qed

lemma first_consumed:
  "iterated h oid \<Longrightarrow> first (ConstrainedSequence sz oid it) h = (Inl IllegalStateError, [], h)"
  by (simp add: first_def constrained_consumed(1))

lemma toArray_consumed:
  "iterated h oid \<Longrightarrow> toArray (ConstrainedSequence sz oid it) h = (Inl IllegalStateError, [], h)"
  by (simp add: toArray_drain constrained_consumed(2))

lemma first_map_array:
  "first (map_seq (Sequence_of (x # xs)) (l, f)) h
     = (Inr (Some (f x 0)), [Pulled x, Called l x 0], h)"
  by (simp add: first_def map_seq_def Sequence_of_def for_of.simps invoke_def finish_def)

lemma toArray_from_iterator:
  assumes "i < length (iters h)"
  shows "toArray (fst (Sequence_from (Iterator i) h)) (snd (Sequence_from (Iterator i) h))
           = (Inr (iters h ! i), map Pulled (iters h ! i),
              (touch (fresh h) True (Suc (fresh h)) h)\<lparr>iters := (iters h)[i := []]\<rparr>)"
proof -
  let ?h0 = "h\<lparr>iterated := (iterated h)(fresh h := False), fresh := Suc (fresh h)\<rparr>"
  have "drain (ConstrainedGen NotStarted (fresh h) (ExtIt i)) ?h0
          = (iters ?h0 ! i, None, map Pulled (iters ?h0 ! i),
             ?h0\<lparr>iterated := (iterated ?h0)(fresh h := True), iters := (iters ?h0)[i := []]\<rparr>)"
    using assms by (intro drain_fresh_iterator) simp_all
  then show ?thesis
    by (simp add: toArray_drain new_ConstrainedSequence_def touch_def)
qed

lemma toArray_from_any_iterator:
  "toArray (fst (Sequence_from (Iterator i) h)) (snd (Sequence_from (Iterator i) h))
     = (Inr (elems i h), map Pulled (elems i h),
        (touch (fresh h) True (Suc (fresh h)) h)\<lparr>iters := (iters h)[i := []]\<rparr>)"
proof (cases "i < length (iters h)")
  case True
  from toArray_from_iterator [OF True] True show ?thesis
    by (simp add: elems_def)
next
  case False
  let ?h0 = "h\<lparr>iterated := (iterated h)(fresh h := False), fresh := Suc (fresh h)\<rparr>"
  have st: "step (ConstrainedGen NotStarted (fresh h) (ExtIt i)) ?h0
              = (Done, [], Finished, ?h0\<lparr>iterated := (iterated ?h0)(fresh h := True)\<rparr>)"
    using False by simp
  have "(iters h)[i := []] = iters h"
    using False by (intro list_update_beyond) simp
  then show ?thesis
    using False
    by (simp add: toArray_drain new_ConstrainedSequence_def touch_def elems_def drain_Done [OF st])
qed

lemma toArray_constrainOnce:
  assumes "\<forall>oid \<in> oids (iterator s). oid < fresh h"
  shows "toArray (fst (constrainOnce s h)) (snd (constrainOnce s h))
           = (case toArray s h of (r, es, h') \<Rightarrow> (r, es, touch (fresh h) True (Suc (fresh h)) h'))"
  unfolding toArray_drain drain_constrainOnce [OF assms]
  by (simp split: prod.splits option.splits)

lemma created_constrained:
  "fst (Sequence_from (Iterator i) h) = ConstrainedSequence (- 1) (fresh h) (ExtIt i)"
  "fst (constrainOnce s h) = ConstrainedSequence (size_seq s) (fresh h) (iterator s)"
  by (simp_all add: new_ConstrainedSequence_def constrainOnce_def)

subsection \<open>Traversals of a chain over an array\<close>

text \<open>
  One turn of the loop of a chain pulls exactly one value from the array, leaves the heap
  alone, cannot throw, and invokes every callback of the chain at most once, with the current
  value of its counter.
\<close>

lemma pulled_append [simp]: "pulled (es @ es') = pulled es @ pulled es'"
  by (induction es rule: pulled.induct) auto

lemma called_append [simp]: "called l (es @ es') = called l es @ called l es'"
  by (induction es rule: pulled.induct) auto

lemma plain_ret: "plain c \<Longrightarrow> ret c = Finished"
  by (induction c rule: plain.induct) auto

lemma plain_step:
  "plain c \<Longrightarrow> step c h = (sig, es, c', h') \<Longrightarrow>
     h' = h \<and> plain c' \<and> (\<forall>e. sig \<noteq> Throw e)
     \<and> (sig = Done \<longleftrightarrow> csource c = [])
     \<and> (sig = Done \<longrightarrow> es = [] \<and> csource c' = [])
     \<and> (sig \<noteq> Done \<longrightarrow>
           (\<exists>cs. es = Pulled (hd (csource c)) # cs \<and> pulled cs = [])
           \<and> (csource c' = [] \<or> csource c' = tl (csource c) \<and> clabels c' = clabels c))"
proof (induction c arbitrary: sig es c' h' rule: plain.induct)
  case (1 xs)
  then show ?case by (cases xs) auto
next
  case (2 dropped n c)
  obtain s0 e0 c0 h0 where st: "step c h = (s0, e0, c0, h0)" by (cases "step c h") auto
  from 2 have p: "plain c" by simp
  from "2.IH" [OF p st] "2.prems" st show ?case
    by (cases s0) (auto split: if_splits)
next
  case (3 yielding index p c)
  obtain s0 e0 c0 h0 where st: "step c h = (s0, e0, c0, h0)" by (cases "step c h") auto
  from 3 have p: "plain c" by simp
  from "3.IH" [OF p st] "3.prems" st show ?case
    by (cases s0) (auto simp: invoke_def split: if_splits)
next
  case (4 index p c)
  obtain s0 e0 c0 h0 where st: "step c h = (s0, e0, c0, h0)" by (cases "step c h") auto
  from 4 have p: "plain c" by simp
  from "4.IH" [OF p st] "4.prems" st show ?case
    by (cases s0) (auto simp: invoke_def split: if_splits)
next
  case (5 index f c)
  obtain s0 e0 c0 h0 where st: "step c h = (s0, e0, c0, h0)" by (cases "step c h") auto
  from 5 have p: "plain c" by simp
  from "5.IH" [OF p st] "5.prems" st show ?case
    by (cases s0) (auto simp: invoke_def split: if_splits)
next
  case (6 taken n c)
  obtain s0 e0 c0 h0 where st: "step c h = (s0, e0, c0, h0)" by (cases "step c h") auto
  from 6 have p: "plain c" by simp
  from "6.IH" [OF p st] "6.prems" st plain_ret [of c0] show ?case
    by (cases s0) (auto split: if_splits)
next
  case (7 index p c)
  obtain s0 e0 c0 h0 where st: "step c h = (s0, e0, c0, h0)" by (cases "step c h") auto
  from 7 have p: "plain c" by simp
  from "7.IH" [OF p st] "7.prems" st plain_ret [of c0] show ?case
    by (cases s0) (auto simp: invoke_def split: if_splits)
next
  case 8
  then show ?case by auto
qed auto

lemma plain_step_not_called:
  "plain c \<Longrightarrow> l \<notin> set (clabels c) \<Longrightarrow> step c h = (sig, es, c', h') \<Longrightarrow> called l es = []"
proof (induction c arbitrary: sig es c' h' rule: plain.induct)
  case (1 xs)
  then show ?case by (cases xs) auto
next
  case (2 dropped n c)
  obtain s0 e0 c0 h0 where st: "step c h = (s0, e0, c0, h0)" by (cases "step c h") auto
  from 2 have p: "plain c" and d: "l \<notin> set (clabels c)" by simp_all
  from "2.IH" [OF p d st] "2.prems" st show ?case
    by (cases s0) (auto split: if_splits)
next
  case (3 yielding index p c)
  obtain s0 e0 c0 h0 where st: "step c h = (s0, e0, c0, h0)" by (cases "step c h") auto
  from 3 have p: "plain c" and d: "l \<notin> set (clabels c)" by simp_all
  from "3.IH" [OF p d st] "3.prems" st show ?case
    by (cases s0) (auto simp: invoke_def split: if_splits)
next
  case (4 index p c)
  obtain s0 e0 c0 h0 where st: "step c h = (s0, e0, c0, h0)" by (cases "step c h") auto
  from 4 have p: "plain c" and d: "l \<notin> set (clabels c)" by simp_all
  from "4.IH" [OF p d st] "4.prems" st show ?case
    by (cases s0) (auto simp: invoke_def split: if_splits)
next
  case (5 index f c)
  obtain s0 e0 c0 h0 where st: "step c h = (s0, e0, c0, h0)" by (cases "step c h") auto
  from 5 have p: "plain c" and d: "l \<notin> set (clabels c)" by simp_all
  from "5.IH" [OF p d st] "5.prems" st show ?case
    by (cases s0) (auto simp: invoke_def split: if_splits)
next
  case (6 taken n c)
  obtain s0 e0 c0 h0 where st: "step c h = (s0, e0, c0, h0)" by (cases "step c h") auto
  from 6 have p: "plain c" and d: "l \<notin> set (clabels c)" by simp_all
  from "6.IH" [OF p d st] "6.prems" st show ?case
    by (cases s0) (auto split: if_splits)
next
  case (7 index p c)
  obtain s0 e0 c0 h0 where st: "step c h = (s0, e0, c0, h0)" by (cases "step c h") auto
  from 7 have p: "plain c" and d: "l \<notin> set (clabels c)" by simp_all
  from "7.IH" [OF p d st] "7.prems" st show ?case
    by (cases s0) (auto simp: invoke_def split: if_splits)
next
  case 8
  then show ?case by auto
qed auto

lemma plain_step_calls:
  "plain c \<Longrightarrow> distinct (clabels c) \<Longrightarrow> step c h = (sig, es, c', h') \<Longrightarrow>
     l \<in> set (clabels c) \<Longrightarrow>
       (called l es = [] \<and> (csource c' \<noteq> [] \<longrightarrow> cindex l c' = cindex l c))
     \<or> (called l es = [cindex l c] \<and> (csource c' \<noteq> [] \<longrightarrow> cindex l c' = Suc (cindex l c)))"
proof (induction c arbitrary: sig es c' h' rule: plain.induct)
  case (1 xs)
  then show ?case by (cases xs) auto
next
  case (2 dropped n c)
  obtain s0 e0 c0 h0 where st: "step c h = (s0, e0, c0, h0)" by (cases "step c h") auto
  from "2.prems" have p: "plain c" and d: "distinct (clabels c)"
    and l: "l \<in> set (clabels c)" by simp_all
  note b = plain_step [OF p st]
  from "2.IH" [OF p d st l] "2.prems"(3) st b plain_ret [of c0] show ?case
    by (cases s0) (auto split: if_splits)
next
  case (3 yielding index p c)
  obtain s0 e0 c0 h0 where st: "step c h = (s0, e0, c0, h0)" by (cases "step c h") auto
  from "3.prems" have p: "plain c" and d: "distinct (clabels c)"
    and nl: "fst p \<notin> set (clabels c)" by simp_all
  note b = plain_step [OF p st]
  show ?case
  proof (cases "fst p = l")
    case True
    then have "l \<notin> set (clabels c)" using nl by simp
    from plain_step_not_called [OF p this st] have e: "called l e0 = []" .
    from "3.prems"(3) st b e True plain_ret [of c0] show ?thesis
      by (cases s0) (auto simp: invoke_def split: if_splits)
  next
    case False
    then have "l \<in> set (clabels c)" using "3.prems"(4) by simp
    from "3.IH" [OF p d st this] "3.prems"(3) st b False plain_ret [of c0] show ?thesis
      by (cases s0) (auto simp: invoke_def split: if_splits)
  qed
next
  case (4 index p c)
  obtain s0 e0 c0 h0 where st: "step c h = (s0, e0, c0, h0)" by (cases "step c h") auto
  from "4.prems" have p: "plain c" and d: "distinct (clabels c)"
    and nl: "fst p \<notin> set (clabels c)" by simp_all
  note b = plain_step [OF p st]
  show ?case
  proof (cases "fst p = l")
    case True
    then have "l \<notin> set (clabels c)" using nl by simp
    from plain_step_not_called [OF p this st] have e: "called l e0 = []" .
    from "4.prems"(3) st b e True plain_ret [of c0] show ?thesis
      by (cases s0) (auto simp: invoke_def split: if_splits)
  next
    case False
    then have "l \<in> set (clabels c)" using "4.prems"(4) by simp
    from "4.IH" [OF p d st this] "4.prems"(3) st b False plain_ret [of c0] show ?thesis
      by (cases s0) (auto simp: invoke_def split: if_splits)
  qed
next
  case (5 index f c)
  obtain s0 e0 c0 h0 where st: "step c h = (s0, e0, c0, h0)" by (cases "step c h") auto
  from "5.prems" have p: "plain c" and d: "distinct (clabels c)"
    and nl: "fst f \<notin> set (clabels c)" by simp_all
  note b = plain_step [OF p st]
  show ?case
  proof (cases "fst f = l")
    case True
    then have "l \<notin> set (clabels c)" using nl by simp
    from plain_step_not_called [OF p this st] have e: "called l e0 = []" .
    from "5.prems"(3) st b e True plain_ret [of c0] show ?thesis
      by (cases s0) (auto simp: invoke_def split: if_splits)
  next
    case False
    then have "l \<in> set (clabels c)" using "5.prems"(4) by simp
    from "5.IH" [OF p d st this] "5.prems"(3) st b False plain_ret [of c0] show ?thesis
      by (cases s0) (auto simp: invoke_def split: if_splits)
  qed
next
  case (6 taken n c)
  obtain s0 e0 c0 h0 where st: "step c h = (s0, e0, c0, h0)" by (cases "step c h") auto
  from "6.prems" have p: "plain c" and d: "distinct (clabels c)"
    and l: "l \<in> set (clabels c)" by simp_all
  note b = plain_step [OF p st]
  from "6.IH" [OF p d st l] "6.prems"(3) st b plain_ret [of c0] show ?case
    by (cases s0) (auto split: if_splits)
next
  case (7 index p c)
  obtain s0 e0 c0 h0 where st: "step c h = (s0, e0, c0, h0)" by (cases "step c h") auto
  from "7.prems" have p: "plain c" and d: "distinct (clabels c)"
    and nl: "fst p \<notin> set (clabels c)" by simp_all
  note b = plain_step [OF p st]
  show ?case
  proof (cases "fst p = l")
    case True
    then have "l \<notin> set (clabels c)" using nl by simp
    from plain_step_not_called [OF p this st] have e: "called l e0 = []" .
    from "7.prems"(3) st b e True plain_ret [of c0] show ?thesis
      by (cases s0) (auto simp: invoke_def split: if_splits)
  next
    case False
    then have "l \<in> set (clabels c)" using "7.prems"(4) by simp
    from "7.IH" [OF p d st this] "7.prems"(3) st b False plain_ret [of c0] show ?thesis
      by (cases s0) (auto simp: invoke_def split: if_splits)
  qed
next
  case 8
  then show ?case by auto
qed auto

lemma advanced_Nil [simp]: "advanced lp c i []"
  by (simp add: advanced_def)

lemma upt_one_more: "[k] @ [Suc k ..< Suc k + n] = [k ..< k + Suc n]"
  by (simp add: upt_rec)

lemma advanced_step:
  assumes p: "plain c" and d: "distinct (clabels c)" and nl: "lp \<notin> set (clabels c)"
      and st: "step c h = (sig, e1, c1, h1)" and nd: "sig \<noteq> Done"
      and bs: "bs = [] \<and> i' = i \<or> bs = [Called lp v i] \<and> i' = Suc i"
      and quiet: "csource c1 = [] \<longrightarrow> es' = []"
      and rest: "advanced lp c1 i' es'"
  shows "advanced lp c i (e1 @ bs @ es')"
proof -
  from plain_step [OF p st] nd obtain cs where
    e1: "e1 = Pulled (hd (csource c)) # cs" and cs: "pulled cs = []"
    and src: "csource c \<noteq> []"
    and c1: "csource c1 = [] \<or> csource c1 = tl (csource c) \<and> clabels c1 = clabels c"
    by auto
  have pb: "pulled bs = []" using bs by auto
  have pe1: "pulled e1 = [hd (csource c)]"
    using e1 cs by simp
  note pe = pe1 pb
  have lp1: "called lp e1 = []"
    using plain_step_not_called [OF p nl st] .
  have A: "pulled (e1 @ bs @ es') = take (length (pulled (e1 @ bs @ es'))) (csource c)"
  proof (cases "csource c1 = []")
    case True
    with quiet have "es' = []" by simp
    then show ?thesis using pe src by (cases "csource c") simp_all
  next
    case False
    with c1 have t: "csource c1 = tl (csource c)" by simp
    from rest have "pulled es' = take (length (pulled es')) (csource c1)"
      by (simp add: advanced_def)
    then show ?thesis using pe src t by (cases "csource c") simp_all
  qed
  have B: "called l (e1 @ bs @ es') = [cindex l c ..< cindex l c + length (called l (e1 @ bs @ es'))]
           \<and> length (called l (e1 @ bs @ es')) \<le> length (pulled (e1 @ bs @ es'))"
    if l: "l \<in> set (clabels c)" for l
  proof -
    have ne: "l \<noteq> lp" using l nl by auto
    then have cb: "called l bs = []" using bs by auto
    note sc = plain_step_calls [OF p d st l]
    show ?thesis
    proof (cases "csource c1 = []")
      case True
      with quiet have "es' = []" by simp
      then show ?thesis using sc cb pe by auto
    next
      case False
      with c1 have "clabels c1 = clabels c" by simp
      with rest l have r: "called l es' = [cindex l c1 ..< cindex l c1 + length (called l es')]"
        and r2: "length (called l es') \<le> length (pulled es')"
        by (simp_all add: advanced_def)
      from sc show ?thesis
      proof
        assume a: "called l e1 = [] \<and> (csource c1 \<noteq> [] \<longrightarrow> cindex l c1 = cindex l c)"
        with False have "cindex l c1 = cindex l c" by simp
        with a r r2 cb pe show ?thesis by simp
      next
        assume a: "called l e1 = [cindex l c] \<and> (csource c1 \<noteq> [] \<longrightarrow> cindex l c1 = Suc (cindex l c))"
        with False have i1: "cindex l c1 = Suc (cindex l c)" by simp
        have "called l (e1 @ bs @ es') = [cindex l c] @ called l es'"
          using a cb by simp
        also have "\<dots> = [cindex l c] @ [Suc (cindex l c) ..< Suc (cindex l c) + length (called l es')]"
          using r i1 by simp
        also have "\<dots> = [cindex l c ..< cindex l c + Suc (length (called l es'))]"
          by (rule upt_one_more)
        finally have "called l (e1 @ bs @ es') = [cindex l c ..< cindex l c + Suc (length (called l es'))]" .
        moreover have "length (called l (e1 @ bs @ es')) = Suc (length (called l es'))"
          using a cb by simp
        ultimately show ?thesis using r2 pe by simp
      qed
    qed
  qed
  have rl: "called lp es' = [i' ..< i' + length (called lp es')]"
    and rl2: "length (called lp es') \<le> length (pulled es')"
    using rest by (simp_all add: advanced_def)
  have C: "called lp (e1 @ bs @ es') = [i ..< i + length (called lp (e1 @ bs @ es'))]
           \<and> length (called lp (e1 @ bs @ es')) \<le> length (pulled (e1 @ bs @ es'))"
    using bs
  proof
    assume "bs = [] \<and> i' = i"
    then show ?thesis using lp1 rl rl2 pe by simp
  next
    assume b: "bs = [Called lp v i] \<and> i' = Suc i"
    have "called lp (e1 @ bs @ es') = [i] @ called lp es'"
      using b lp1 by simp
    also have "\<dots> = [i] @ [Suc i ..< Suc i + length (called lp es')]"
      using rl b by simp
    also have "\<dots> = [i ..< i + Suc (length (called lp es'))]"
      by (rule upt_one_more)
    finally have "called lp (e1 @ bs @ es') = [i ..< i + Suc (length (called lp es'))]" .
    moreover have "length (called lp (e1 @ bs @ es')) = Suc (length (called lp es'))"
      using b lp1 by simp
    ultimately show ?thesis using rl2 pe by simp
  qed
  have D: "hd (e1 @ bs @ es') = Pulled (hd (csource c))"
    using e1 by simp
  show ?thesis
    unfolding advanced_def using A B C D by blast
qed

lemma dense_plain: "dense c \<Longrightarrow> plain c"
  by (induction c rule: dense.induct) auto

lemma dense_step:
  "dense c \<Longrightarrow> step c h = (sig, es, c', h') \<Longrightarrow> sig \<noteq> Done \<Longrightarrow>
     (\<exists>v. sig = Yield v) \<and> dense c'"
proof (induction c arbitrary: sig es c' h' rule: dense.induct)
  case (1 xs)
  then show ?case by (cases xs) auto
next
  case (2 index f c)
  obtain s0 e0 c0 h0 where st: "step c h = (s0, e0, c0, h0)" by (cases "step c h") auto
  from 2 have p: "dense c" by simp
  from "2.IH" [OF p st] "2.prems" st show ?case
    by (cases s0) (auto simp: invoke_def)
qed auto

lemma direct_label: "direct l c \<Longrightarrow> l \<in> set (clabels c)"
  by (induction l c rule: direct.induct) (auto split: if_splits)

lemma direct_step:
  "plain c \<Longrightarrow> direct l c \<Longrightarrow> step c h = (sig, es, c', h') \<Longrightarrow> sig \<noteq> Done \<Longrightarrow>
     called l es \<noteq> [] \<and> (csource c' \<noteq> [] \<longrightarrow> direct l c')"
proof (induction c arbitrary: sig es c' h' rule: plain.induct)
  case (1 xs)
  then show ?case by simp
next
  case (2 dropped n c)
  obtain s0 e0 c0 h0 where st: "step c h = (s0, e0, c0, h0)" by (cases "step c h") auto
  from "2.prems" have p: "plain c" and d: "direct l c" by simp_all
  from "2.IH" [OF p d st] "2.prems"(3,4) st show ?case
    by (cases s0) (auto split: if_splits)
next
  case (3 yielding index p c)
  obtain s0 e0 c0 h0 where st: "step c h = (s0, e0, c0, h0)" by (cases "step c h") auto
  from "3.prems" have p: "plain c" by simp
  show ?case
  proof (cases "fst p = l")
    case True
    with "3.prems" have dn: "dense c" by simp
    from "3.prems"(3,4) st have "s0 \<noteq> Done" by (cases s0) auto
    from dense_step [OF dn st this] "3.prems"(3) st True show ?thesis
      by (auto simp: invoke_def split: if_splits)
  next
    case False
    with "3.prems" have d: "direct l c" by simp
    from "3.IH" [OF p d st] "3.prems"(3,4) st False show ?thesis
      by (cases s0) (auto simp: invoke_def split: if_splits)
  qed
next
  case (4 index p c)
  obtain s0 e0 c0 h0 where st: "step c h = (s0, e0, c0, h0)" by (cases "step c h") auto
  from "4.prems" have p: "plain c" by simp
  show ?case
  proof (cases "fst p = l")
    case True
    with "4.prems" have dn: "dense c" by simp
    from "4.prems"(3,4) st have "s0 \<noteq> Done" by (cases s0) auto
    from dense_step [OF dn st this] "4.prems"(3) st True show ?thesis
      by (auto simp: invoke_def split: if_splits)
  next
    case False
    with "4.prems" have d: "direct l c" by simp
    from "4.IH" [OF p d st] "4.prems"(3,4) st False show ?thesis
      by (cases s0) (auto simp: invoke_def split: if_splits)
  qed
next
  case (5 index f c)
  obtain s0 e0 c0 h0 where st: "step c h = (s0, e0, c0, h0)" by (cases "step c h") auto
  from "5.prems" have p: "plain c" by simp
  show ?case
  proof (cases "fst f = l")
    case True
    with "5.prems" have dn: "dense c" by simp
    from "5.prems"(3,4) st have "s0 \<noteq> Done" by (cases s0) auto
    from dense_step [OF dn st this] "5.prems"(3) st True show ?thesis
      by (auto simp: invoke_def split: if_splits)
  next
    case False
    with "5.prems" have d: "direct l c" by simp
    from "5.IH" [OF p d st] "5.prems"(3,4) st False show ?thesis
      by (cases s0) (auto simp: invoke_def split: if_splits)
  qed
next
  case (6 taken n c)
  obtain s0 e0 c0 h0 where st: "step c h = (s0, e0, c0, h0)" by (cases "step c h") auto
  from "6.prems" have p: "plain c" and d: "direct l c" by simp_all
  from "6.IH" [OF p d st] "6.prems"(3,4) st plain_ret [of c0] plain_step [OF p st] show ?case
    by (cases s0) (auto split: if_splits)
next
  case (7 index p c)
  obtain s0 e0 c0 h0 where st: "step c h = (s0, e0, c0, h0)" by (cases "step c h") auto
  from "7.prems" have p: "plain c" by simp
  show ?case
  proof (cases "fst p = l")
    case True
    with "7.prems" have dn: "dense c" by simp
    from "7.prems"(3,4) st have "s0 \<noteq> Done" by (cases s0) auto
    from dense_step [OF dn st this] "7.prems"(3) st True plain_ret [of c0] dense_plain [of c0]
    show ?thesis
      by (auto simp: invoke_def split: if_splits)
  next
    case False
    with "7.prems" have d: "direct l c" by simp
    from "7.IH" [OF p d st] "7.prems"(3,4) st False plain_ret [of c0] plain_step [OF p st]
    show ?thesis
      by (cases s0) (auto simp: invoke_def split: if_splits)
  qed
next
  case 8
  then show ?case by simp
qed auto

lemma exact_Nil [simp]: "exact lp c []"
  by (simp add: exact_def)

lemma exact_step:
  assumes p: "plain c" and d: "distinct (clabels c)" and nl: "lp \<notin> set (clabels c)"
      and st: "step c h = (sig, e1, c1, h1)" and nd: "sig \<noteq> Done"
      and bs: "bs = [] \<or> bs = [Called lp v i]"
      and yielded: "dense c \<longrightarrow> bs \<noteq> []"
      and quiet: "csource c1 = [] \<longrightarrow> es' = []"
      and rest: "exact lp c1 es'"
  shows "exact lp c (e1 @ bs @ es')"
proof -
  from plain_step [OF p st] nd obtain cs where
    e1: "e1 = Pulled (hd (csource c)) # cs" and cs: "pulled cs = []"
    by auto
  have pb: "pulled bs = []" using bs by auto
  have pe1: "pulled e1 = [hd (csource c)]"
    using e1 cs by simp
  have lp1: "called lp e1 = []"
    using plain_step_not_called [OF p nl st] .
  have A: "length (called l (e1 @ bs @ es')) = length (pulled (e1 @ bs @ es'))"
    if l: "direct l c" for l
  proof -
    have lc: "l \<in> set (clabels c)" using direct_label [OF l] .
    then have "l \<noteq> lp" using nl by auto
    then have cb: "called l bs = []" using bs by auto
    from direct_step [OF p l st nd] plain_step_calls [OF p d st lc]
    have c1: "called l e1 = [cindex l c]" and nx: "csource c1 \<noteq> [] \<longrightarrow> direct l c1"
      by auto
    show ?thesis
    proof (cases "csource c1 = []")
      case True
      with quiet have "es' = []" by simp
      then show ?thesis using c1 cb pe1 pb by simp
    next
      case False
      with nx rest have "length (called l es') = length (pulled es')"
        by (simp add: exact_def)
      then show ?thesis using c1 cb pe1 pb by simp
    qed
  qed
  have B: "length (called lp (e1 @ bs @ es')) = length (pulled (e1 @ bs @ es'))" if dn: "dense c"
  proof -
    from yielded dn bs have b: "bs = [Called lp v i]" by auto
    from dense_step [OF dn st nd] have dn1: "dense c1" by simp
    with rest have "length (called lp es') = length (pulled es')"
      by (simp add: exact_def)
    then show ?thesis using b lp1 pe1 by simp
  qed
  show ?thesis
    unfolding exact_def using A B by blast
qed

lemma quiet_for_of:
  assumes "plain c" and "csource c = []"
  shows "for_of c body s h = (Next s, None, [], h)"
proof -
  obtain sig es c' h' where st: "step c h = (sig, es, c', h')"
    by (cases "step c h") auto
  from plain_step [OF assms(1) st] assms(2) have "sig = Done" "es = []" "h' = h"
    by auto
  with for_of_Done [of c h es c' h' body s] st show ?thesis by simp
qed

lemma find_run:
  fixes pr :: "('a, bool) callback"
  defines "body \<equiv> (\<lambda>item index. case invoke pr item index of
                       (b, ps) \<Rightarrow> (if b then Exit (Some item) else Next (index + 1), ps))"
  assumes "plain c" and "distinct (clabels c)" and "fst pr \<notin> set (clabels c)"
      and "for_of c body i h = (fl, r, es, h')"
  shows "r = None \<and> h' = h \<and> advanced (fst pr) c i es \<and> exact (fst pr) c es
         \<and> (\<forall>x. fl = Exit x \<longrightarrow>
               (\<exists>v es0 j. x = Some v \<and> es = es0 @ [Called (fst pr) v j] \<and> snd pr v j))"
  using assms(2-)
proof (induction c h arbitrary: i fl r es h' rule: run_induct)
  case (run c h)
  note p = run.prems(1) and d = run.prems(2) and nl = run.prems(3)
  obtain sig e1 c1 h1 where st: "step c h = (sig, e1, c1, h1)"
    by (cases "step c h") auto
  note b = plain_step [OF p st]
  then have h1: "h1 = h" and p1: "plain c1" by simp_all
  have keep: "distinct (clabels c1) \<and> fst pr \<notin> set (clabels c1)" if "csource c1 \<noteq> []"
    using b that d nl by (cases "sig = Done") auto
  show ?case
  proof (cases sig)
    case Done
    from for_of_Done [OF st [unfolded Done], of body i] run.prems(4) b Done show ?thesis
      by auto
  next
    case (Throw e)
    with b show ?thesis by simp
  next
    case Skip
    note st' = st [unfolded Skip]
    have nd: "\<not> dense c"
      using dense_step [OF _ st] Skip by auto
    obtain fl' r' es' h'' where rec: "for_of c1 body i h1 = (fl', r', es', h'')"
      by (cases "for_of c1 body i h1") auto
    from for_of_Skip [OF st', of body i] rec run.prems(4)
    have res: "fl = fl'" "r = r'" "es = e1 @ es'" "h' = h''" by simp_all
    have R: "r' = None \<and> h'' = h1 \<and> advanced (fst pr) c1 i es' \<and> exact (fst pr) c1 es'
             \<and> (\<forall>x. fl' = Exit x \<longrightarrow>
                   (\<exists>v es0 j. x = Some v \<and> es' = es0 @ [Called (fst pr) v j] \<and> snd pr v j))
             \<and> (csource c1 = [] \<longrightarrow> es' = [])"
    proof (cases "csource c1 = []")
      case True
      from quiet_for_of [OF p1 True, of body i h1] rec show ?thesis by auto
    next
      case False
      from run.IH(2) [OF st' p1 _ _ rec] keep [OF False] False show ?thesis by simp
    qed
    have "advanced (fst pr) c i (e1 @ [] @ es')"
      using R by (intro advanced_step [OF p d nl st, where i' = i and v = undefined]) (simp_all add: Skip)
    moreover have "exact (fst pr) c (e1 @ [] @ es')"
      using R nd by (intro exact_step [OF p d nl st, where v = undefined and i = i]) (simp_all add: Skip)
    ultimately show ?thesis using R res h1 by auto
  next
    case (Yield v)
    note st' = st [unfolded Yield]
    show ?thesis
    proof (cases "snd pr v i")
      case True
      have bd: "body v i = (Exit (Some v), [Called (fst pr) v i])"
        using True by (simp add: body_def invoke_def)
      have "finish (ret c1) h1 = (None, [], h1)"
        using plain_ret [OF p1] by (simp add: finish_def)
      with for_of_Yield_Exit [where body = body and s = i, OF st' bd] run.prems(4)
      have res: "fl = Exit (Some v)" "r = None" "es = e1 @ [Called (fst pr) v i] @ []" "h' = h1"
        by simp_all
      have "advanced (fst pr) c i (e1 @ [Called (fst pr) v i] @ [])"
        by (intro advanced_step [OF p d nl st, where i' = "Suc i" and v = v]) (simp_all add: Yield)
      moreover have "exact (fst pr) c (e1 @ [Called (fst pr) v i] @ [])"
        by (intro exact_step [OF p d nl st, where v = v and i = i]) (simp_all add: Yield)
      ultimately show ?thesis using res h1 True by auto
    next
      case False
      have bd: "body v i = (Next (i + 1), [Called (fst pr) v i])"
        using False by (simp add: body_def invoke_def)
      obtain fl' r' es' h'' where rec: "for_of c1 body (i + 1) h1 = (fl', r', es', h'')"
        by (cases "for_of c1 body (i + 1) h1") auto
      from for_of_Yield_Next [where body = body and s = i, OF st' bd] rec run.prems(4)
      have res: "fl = fl'" "r = r'" "es = e1 @ [Called (fst pr) v i] @ es'" "h' = h''"
        by simp_all
      have R: "r' = None \<and> h'' = h1 \<and> advanced (fst pr) c1 (Suc i) es' \<and> exact (fst pr) c1 es'
               \<and> (\<forall>x. fl' = Exit x \<longrightarrow>
                     (\<exists>v es0 j. x = Some v \<and> es' = es0 @ [Called (fst pr) v j] \<and> snd pr v j))
               \<and> (csource c1 = [] \<longrightarrow> es' = [])"
      proof (cases "csource c1 = []")
        case True
        from quiet_for_of [OF p1 True, of body "i + 1" h1] rec show ?thesis by auto
      next
        case False
        from run.IH(1) [OF st' p1 _ _ rec] keep [OF False] False show ?thesis by simp
      qed
      have "advanced (fst pr) c i (e1 @ [Called (fst pr) v i] @ es')"
        using R by (intro advanced_step [OF p d nl st, where i' = "Suc i" and v = v]) (simp_all add: Yield)
      moreover have "exact (fst pr) c (e1 @ [Called (fst pr) v i] @ es')"
        using R by (intro exact_step [OF p d nl st, where v = v and i = i]) (simp_all add: Yield)
      moreover have "\<exists>w es0 j. x = Some w \<and> es = es0 @ [Called (fst pr) w j] \<and> snd pr w j"
        if "fl = Exit x" for x
      proof -
        from R that res obtain w es0 j
          where w: "x = Some w" "es' = es0 @ [Called (fst pr) w j]" "snd pr w j"
          by auto
        then have "es = (e1 @ [Called (fst pr) v i] @ es0) @ [Called (fst pr) w j]"
          using res by simp
        with w show ?thesis by blast
      qed
      ultimately show ?thesis using R res h1 by auto
    qed
  qed
qed

subsection \<open>Traversals of a chain over an iterator\<close>

text \<open>
  A chain over a one-shot iterator makes the turns of its twin over an array, with the same
  trace, until its loop ends or is left; then the \<^verbatim>\<open>finally\<close> block of the constrained sequence
  may pull one more value. The values pulled are a prefix of what the source held.
\<close>

lemma staged_ret:
  "staged h c \<Longrightarrow>
     staged h' (ret c) \<and> twin h' (ret c) = Finished \<and> ret (twin h c) = Finished
     \<and> (ret c = Finished \<or> (\<exists>k. ret c = Finalize (ExtIt k)))"
  by (induction h c rule: staged.induct) auto

lemma twin_plain: "staged h c \<Longrightarrow> plain (twin h c)"
  by (induction h c rule: staged.induct) auto

lemma twin_step:
  "staged h c \<Longrightarrow> step c h = (sig, es, c', h') \<Longrightarrow>
     staged h' c' \<and> (\<forall>e. sig \<noteq> Throw e)
     \<and> step (twin h c) h0 = (sig, if sig = Done then [] else es, twin h' c', h0)
     \<and> (sig = Done \<longrightarrow> es = [] \<or> (\<exists>x. es = [Pulled x]))"
proof (induction h c arbitrary: sig es c' h' rule: staged.induct)
  case (1 h xs)
  then show ?case by (cases xs) auto
next
  case (2 h ph oid k)
  then show ?case
    by (cases "k < length (iters h)"; cases "iters h ! k") (auto split: if_splits)
next
  case (3 h k)
  then show ?case
    by (cases "k < length (iters h)"; cases "iters h ! k") (auto split: if_splits)
next
  case (4 h)
  then show ?case by auto
next
  case (5 h dropped n c)
  obtain s0 e0 c0 h1 where st: "step c h = (s0, e0, c0, h1)" by (cases "step c h") auto
  from 5 have p: "staged h c" by simp
  from "5.IH" [OF p st] "5.prems" st show ?case
    by (cases s0) (auto split: if_splits)
next
  case (6 h yielding index p c)
  obtain s0 e0 c0 h1 where st: "step c h = (s0, e0, c0, h1)" by (cases "step c h") auto
  from 6 have p: "staged h c" by simp
  from "6.IH" [OF p st] "6.prems" st show ?case
    by (cases s0) (auto simp: invoke_def Let_def split: if_splits)
next
  case (7 h index p c)
  obtain s0 e0 c0 h1 where st: "step c h = (s0, e0, c0, h1)" by (cases "step c h") auto
  from 7 have p: "staged h c" by simp
  from "7.IH" [OF p st] "7.prems" st show ?case
    by (cases s0) (auto simp: invoke_def split: if_splits)
next
  case (8 h index f c)
  obtain s0 e0 c0 h1 where st: "step c h = (s0, e0, c0, h1)" by (cases "step c h") auto
  from 8 have p: "staged h c" by simp
  from "8.IH" [OF p st] "8.prems" st show ?case
    by (cases s0) (auto simp: invoke_def split: if_splits)
next
  case (9 h taken n c)
  obtain s0 e0 c0 h1 where st: "step c h = (s0, e0, c0, h1)" by (cases "step c h") auto
  from 9 have p: "staged h c" by simp
  from "9.IH" [OF p st] have q: "staged h1 c0" by simp
  from "9.IH" [OF p st] "9.prems" st staged_ret [OF q, of h1] show ?case
    by (cases s0) (auto split: if_splits)
next
  case (10 h index p c)
  obtain s0 e0 c0 h1 where st: "step c h = (s0, e0, c0, h1)" by (cases "step c h") auto
  from 10 have p: "staged h c" by simp
  from "10.IH" [OF p st] have q: "staged h1 c0" by simp
  from "10.IH" [OF p st] "10.prems" st staged_ret [OF q, of h1] show ?case
    by (cases s0) (auto simp: invoke_def split: if_splits)
qed simp_all

lemma staged_finish:
  assumes "staged h c"
  shows "\<exists>fs h'. finish (ret c) h = (None, fs, h') \<and> (fs = [] \<or> (\<exists>x. fs = [Pulled x]))"
proof -
  from staged_ret [OF assms, of h] consider "ret c = Finished" | k where "ret c = Finalize (ExtIt k)"
    by auto
  then show ?thesis
  proof cases
    case 1
    then show ?thesis by (simp add: finish_def)
  next
    case 2
    obtain sig es c' h' where st: "step (Finalize (ExtIt k)) h = (sig, es, c', h')"
      by (cases "step (Finalize (ExtIt k)) h") auto
    have sg: "staged h (Finalize (ExtIt k))" by simp
    from st have d: "sig = Done"
      by (cases "k < length (iters h)"; cases "iters h ! k") (auto split: if_splits)
    from twin_step [OF sg st] d have "es = [] \<or> (\<exists>x. es = [Pulled x])" by simp
    with drain_Done [OF st [unfolded d]] 2 show ?thesis by (simp add: finish_def)
  qed
qed

lemma twin_for_of:
  assumes "staged h c" and "for_of c body s h = (fl, r, es, h')"
  shows "\<exists>es_t fs. for_of (twin h c) body s h0 = (fl, r, es_t, h0) \<and> es = es_t @ fs
           \<and> (fs = [] \<or> (\<exists>x. fs = [Pulled x]))"
  using assms
proof (induction c h arbitrary: s fl r es h' rule: run_induct)
  case (run c h)
  note sg = run.prems(1)
  obtain sig e1 c1 h1 where st: "step c h = (sig, e1, c1, h1)"
    by (cases "step c h") auto
  note b = twin_step [OF sg st, of h0]
  then have sg1: "staged h1 c1" by simp
  show ?case
  proof (cases sig)
    case Done
    from b Done have tw: "step (twin h c) h0 = (Done, [], twin h1 c1, h0)"
      and e1: "e1 = [] \<or> (\<exists>x. e1 = [Pulled x])" by simp_all
    from for_of_Done [OF st [unfolded Done], of body s] run.prems(2)
    have "fl = Next s" "r = None" "es = e1" by simp_all
    with for_of_Done [OF tw, of body s] e1 show ?thesis by simp
  next
    case (Throw e)
    with b show ?thesis by simp
  next
    case Skip
    note st' = st [unfolded Skip]
    from b Skip have tw: "step (twin h c) h0 = (Skip, e1, twin h1 c1, h0)" by simp
    obtain fl' r' es' h'' where rec: "for_of c1 body s h1 = (fl', r', es', h'')"
      by (cases "for_of c1 body s h1") auto
    from for_of_Skip [OF st', of body s] rec run.prems(2)
    have res: "fl = fl'" "r = r'" "es = e1 @ es'" by simp_all
    from run.IH(2) [OF st' sg1 rec] obtain es_t fs where
      t: "for_of (twin h1 c1) body s h0 = (fl', r', es_t, h0)" and e: "es' = es_t @ fs"
      and f: "fs = [] \<or> (\<exists>x. fs = [Pulled x])" by blast
    from for_of_Skip [OF tw, of body s] t
    have "for_of (twin h c) body s h0 = (fl', r', e1 @ es_t, h0)" by simp
    with res e f show ?thesis by auto
  next
    case (Yield v)
    note st' = st [unfolded Yield]
    from b Yield have tw: "step (twin h c) h0 = (Yield v, e1, twin h1 c1, h0)" by simp
    obtain out bs where bd: "body v s = (out, bs)" by (cases "body v s") auto
    show ?thesis
    proof (cases out)
      case (Exit x)
      note bd' = bd [unfolded Exit]
      from staged_finish [OF sg1] obtain fs h2 where
        fin: "finish (ret c1) h1 = (None, fs, h2)" and f: "fs = [] \<or> (\<exists>x. fs = [Pulled x])"
        by blast
      from for_of_Yield_Exit [where body = body and s = s, OF st' bd'] fin run.prems(2)
      have res: "fl = Exit x" "r = None" "es = e1 @ bs @ fs" by simp_all
      have "finish (ret (twin h1 c1)) h0 = (None, [], h0)"
        using staged_ret [OF sg1, of h1] by (simp add: finish_def)
      with for_of_Yield_Exit [where body = body and s = s, OF tw bd']
      have "for_of (twin h c) body s h0 = (Exit x, None, e1 @ bs @ [], h0)" by simp
      with res f show ?thesis by auto
    next
      case (Next s')
      note bd' = bd [unfolded Next]
      obtain fl' r' es' h'' where rec: "for_of c1 body s' h1 = (fl', r', es', h'')"
        by (cases "for_of c1 body s' h1") auto
      from for_of_Yield_Next [where body = body and s = s, OF st' bd'] rec run.prems(2)
      have res: "fl = fl'" "r = r'" "es = e1 @ bs @ es'" by simp_all
      from run.IH(1) [OF st' sg1 rec] obtain es_t fs where
        t: "for_of (twin h1 c1) body s' h0 = (fl', r', es_t, h0)" and e: "es' = es_t @ fs"
        and f: "fs = [] \<or> (\<exists>x. fs = [Pulled x])" by blast
      from for_of_Yield_Next [where body = body and s = s, OF tw bd'] t
      have "for_of (twin h c) body s h0 = (fl', r', e1 @ bs @ es_t, h0)" by simp
      with res e f show ?thesis by auto
    qed
  qed
qed

lemma remaining_ret:
  "staged h c \<Longrightarrow> remaining h (ret c) = remaining h c \<or> remaining h (ret c) = []"
  by (induction h c rule: staged.induct) auto

lemma remaining_step:
  "staged h c \<Longrightarrow> step c h = (sig, es, c', h') \<Longrightarrow>
     (\<exists>ys. remaining h c = pulled es @ ys \<and> (remaining h' c' = ys \<or> remaining h' c' = []))"
proof (induction h c arbitrary: sig es c' h' rule: staged.induct)
  case (1 h xs)
  then show ?case by (cases xs) auto
next
  case (2 h ph oid k)
  then show ?case
    by (cases "k < length (iters h)"; cases "iters h ! k") (auto simp: elems_def split: if_splits)
next
  case (3 h k)
  then show ?case
    by (cases "k < length (iters h)"; cases "iters h ! k") (auto simp: elems_def split: if_splits)
next
  case (4 h)
  then show ?case by auto
next
  case (5 h dropped n c)
  obtain s0 e0 c0 h1 where st: "step c h = (s0, e0, c0, h1)" by (cases "step c h") auto
  from 5 have p: "staged h c" by simp
  from "5.IH" [OF p st] "5.prems" st show ?case
    by (cases s0) (auto split: if_splits)
next
  case (6 h yielding index p c)
  obtain s0 e0 c0 h1 where st: "step c h = (s0, e0, c0, h1)" by (cases "step c h") auto
  from 6 have p: "staged h c" by simp
  from "6.IH" [OF p st] "6.prems" st show ?case
    by (cases s0) (auto simp: invoke_def Let_def split: if_splits)
next
  case (7 h index p c)
  obtain s0 e0 c0 h1 where st: "step c h = (s0, e0, c0, h1)" by (cases "step c h") auto
  from 7 have p: "staged h c" by simp
  from "7.IH" [OF p st] "7.prems" st show ?case
    by (cases s0) (auto simp: invoke_def split: if_splits)
next
  case (8 h index f c)
  obtain s0 e0 c0 h1 where st: "step c h = (s0, e0, c0, h1)" by (cases "step c h") auto
  from 8 have p: "staged h c" by simp
  from "8.IH" [OF p st] "8.prems" st show ?case
    by (cases s0) (auto simp: invoke_def split: if_splits)
next
  case (9 h taken n c)
  obtain s0 e0 c0 h1 where st: "step c h = (s0, e0, c0, h1)" by (cases "step c h") auto
  from 9 have p: "staged h c" by simp
  from twin_step [OF p st] have q: "staged h1 c0" by simp
  from "9.IH" [OF p st] "9.prems" st remaining_ret [OF q] show ?case
    by (cases s0) (auto split: if_splits)
next
  case (10 h index p c)
  obtain s0 e0 c0 h1 where st: "step c h = (s0, e0, c0, h1)" by (cases "step c h") auto
  from 10 have p: "staged h c" by simp
  from twin_step [OF p st] have q: "staged h1 c0" by simp
  from "10.IH" [OF p st] "10.prems" st remaining_ret [OF q] show ?case
    by (cases s0) (auto simp: invoke_def split: if_splits)
qed simp_all

lemma remaining_finish:
  assumes "staged h c" and "finish (ret c) h = (r, fs, h')"
  shows "\<exists>ys. remaining h c = pulled fs @ ys"
proof -
  from staged_ret [OF assms(1), of h] have sg: "staged h (ret c)"
    and form: "ret c = Finished \<or> (\<exists>k. ret c = Finalize (ExtIt k))" by simp_all
  obtain sig es c' h1 where st: "step (ret c) h = (sig, es, c', h1)"
    by (cases "step (ret c) h") auto
  from form st have d: "sig = Done"
    by (auto split: prod.splits signal.splits if_splits list.splits)
  from drain_Done [OF st [unfolded d]] assms(2) have "fs = es" by (simp add: finish_def)
  with remaining_step [OF sg st] remaining_ret [OF assms(1)] show ?thesis
    by auto
qed

lemma for_of_prefix:
  assumes "staged h c" and "\<And>v s. pulled (snd (body v s)) = []"
      and "for_of c body s h = (fl, r, es, h')"
  shows "\<exists>ys. remaining h c = pulled es @ ys"
  using assms(1,3)
proof (induction c h arbitrary: s fl r es h' rule: run_induct)
  case (run c h)
  note sg = run.prems(1)
  obtain sig e1 c1 h1 where st: "step c h = (sig, e1, c1, h1)"
    by (cases "step c h") auto
  from twin_step [OF sg st] have sg1: "staged h1 c1" and nt: "\<forall>e. sig \<noteq> Throw e" by simp_all
  from remaining_step [OF sg st] obtain ys where
    r0: "remaining h c = pulled e1 @ ys" and r1: "remaining h1 c1 = ys \<or> remaining h1 c1 = []"
    by blast
  have cont: "\<exists>zs. remaining h c = pulled (e1 @ bs @ es') @ zs"
    if "pulled bs = []" and "\<exists>zs. remaining h1 c1 = pulled es' @ zs" for bs es'
    using that r0 r1 by auto
  show ?case
  proof (cases sig)
    case Done
    from for_of_Done [OF st [unfolded Done], of body s] run.prems(2) r0 show ?thesis by auto
  next
    case (Throw e)
    with nt show ?thesis by simp
  next
    case Skip
    note st' = st [unfolded Skip]
    obtain fl' r' es' h'' where rec: "for_of c1 body s h1 = (fl', r', es', h'')"
      by (cases "for_of c1 body s h1") auto
    from for_of_Skip [OF st', of body s] rec run.prems(2) have res: "es = e1 @ [] @ es'" by simp
    from cont [of "[]" es'] run.IH(2) [OF st' sg1 rec] res show ?thesis by simp
  next
    case (Yield v)
    note st' = st [unfolded Yield]
    obtain out bs where bd: "body v s = (out, bs)" by (cases "body v s") auto
    from assms(2) [of v s] bd have pb: "pulled bs = []" by simp
    show ?thesis
    proof (cases out)
      case (Exit x)
      note bd' = bd [unfolded Exit]
      obtain r2 fs h2 where fin: "finish (ret c1) h1 = (r2, fs, h2)"
        by (cases "finish (ret c1) h1") auto
      from for_of_Yield_Exit [where body = body and s = s, OF st' bd'] fin run.prems(2)
      have res: "es = e1 @ bs @ fs" by simp
      from cont [OF pb remaining_finish [OF sg1 fin]] res show ?thesis by simp
    next
      case (Next s')
      note bd' = bd [unfolded Next]
      obtain fl' r' es' h'' where rec: "for_of c1 body s' h1 = (fl', r', es', h'')"
        by (cases "for_of c1 body s' h1") auto
      from for_of_Yield_Next [where body = body and s = s, OF st' bd'] rec run.prems(2)
      have res: "es = e1 @ bs @ es'" by simp
      from cont [OF pb run.IH(1) [OF st' sg1 rec]] res show ?thesis by simp
    qed
  qed
qed

lemma maps_only_iterator: "maps_only s \<Longrightarrow> dense (twin h (iterator s))"
  by (induction s rule: maps_only.induct) auto

lemma sees_all_iterator: "sees_all l s \<Longrightarrow> direct l (twin h (iterator s))"
  by (induction l s rule: sees_all.induct) (auto simp: maps_only_iterator split: if_splits)

lemma chain_iterator:
  "chain s \<Longrightarrow> plain (twin h (iterator s)) \<and> csource (twin h (iterator s)) = elements s h
     \<and> clabels (twin h (iterator s)) = labels s \<and> cindex l (twin h (iterator s)) = 0
     \<and> remaining h (iterator s) = elements s h"
  by (induction s rule: chain.induct) (auto simp: elems_def)

lemma over_array_iterator: "over_array s \<Longrightarrow> twin h (iterator s) = iterator s"
  by (induction s rule: over_array.induct) auto

lemma chain_consumed:
  "chain s \<Longrightarrow> \<not> staged h (iterator s) \<Longrightarrow>
     step (iterator s) h = (Throw IllegalStateError, [], Finished, h)"
  by (induction s rule: chain.induct) auto

subsection \<open>Traversals that are left early\<close>

text \<open>
  A loop over a chain that is left after \<open>n\<close> pulls runs in the same way when the array holds
  only its first \<open>n\<close> values, and is not left when it holds fewer. Up to the invocation at
  which \<^verbatim>\<open>find\<close> returns, its predicate has returned false.
\<close>

lemma cut_plain: "plain c \<Longrightarrow> plain (cut k c) \<and> csource (cut k c) = take k (csource c)"
  by (induction c rule: plain.induct) auto

lemma cut_ret: "plain c \<Longrightarrow> ret (cut k c) = Finished \<and> cut k (ret c) = Finished"
  using plain_ret [of c] plain_ret [of "cut k c"] cut_plain [of c k] by simp

lemma cut_step:
  "plain c \<Longrightarrow> step c h = (sig, es, c', h') \<Longrightarrow> sig \<noteq> Done \<Longrightarrow>
     step (cut (Suc k) c) h0 = (sig, es, cut k c', h0)"
proof (induction c arbitrary: sig es c' h' rule: plain.induct)
  case (1 xs)
  then show ?case by (cases xs) auto
next
  case (2 dropped n c)
  obtain s0 e0 c0 h1 where st: "step c h = (s0, e0, c0, h1)" by (cases "step c h") auto
  from 2 have p: "plain c" by simp
  from "2.IH" [OF p st] "2.prems" st show ?case
    by (cases s0) (auto split: if_splits)
next
  case (3 yielding index p c)
  obtain s0 e0 c0 h1 where st: "step c h = (s0, e0, c0, h1)" by (cases "step c h") auto
  from 3 have p: "plain c" by simp
  from "3.IH" [OF p st] "3.prems" st show ?case
    by (cases s0) (auto simp: invoke_def Let_def split: if_splits)
next
  case (4 index p c)
  obtain s0 e0 c0 h1 where st: "step c h = (s0, e0, c0, h1)" by (cases "step c h") auto
  from 4 have p: "plain c" by simp
  from "4.IH" [OF p st] "4.prems" st show ?case
    by (cases s0) (auto simp: invoke_def split: if_splits)
next
  case (5 index f c)
  obtain s0 e0 c0 h1 where st: "step c h = (s0, e0, c0, h1)" by (cases "step c h") auto
  from 5 have p: "plain c" by simp
  from "5.IH" [OF p st] "5.prems" st show ?case
    by (cases s0) (auto simp: invoke_def split: if_splits)
next
  case (6 taken n c)
  obtain s0 e0 c0 h1 where st: "step c h = (s0, e0, c0, h1)" by (cases "step c h") auto
  from 6 have p: "plain c" by simp
  from plain_step [OF p st] have q: "plain c0" by simp
  from "6.IH" [OF p st] "6.prems" st cut_ret [OF q, of k] show ?case
    by (cases s0) (auto split: if_splits)
next
  case (7 index p c)
  obtain s0 e0 c0 h1 where st: "step c h = (s0, e0, c0, h1)" by (cases "step c h") auto
  from 7 have p: "plain c" by simp
  from plain_step [OF p st] have q: "plain c0" by simp
  from "7.IH" [OF p st] "7.prems" st cut_ret [OF q, of k] show ?case
    by (cases s0) (auto simp: invoke_def split: if_splits)
qed simp_all

lemma cut_0:
  assumes "plain c"
  shows "for_of (cut 0 c) body s h0 = (Next s, None, [], h0)"
proof -
  obtain sig es c' h' where st: "step (cut 0 c) h0 = (sig, es, c', h')"
    by (cases "step (cut 0 c) h0") auto
  from cut_plain [OF assms, of 0] have p: "plain (cut 0 c)" and c: "csource (cut 0 c) = []"
    by simp_all
  from plain_step [OF p st] c have "sig = Done" "es = []" "h' = h0" by auto
  with for_of_Done [of "cut 0 c" h0 es c' h' body s] st show ?thesis by simp
qed

lemma cut_for_of:
  assumes "plain c" and "\<And>v s. pulled (snd (body v s)) = []"
      and "for_of c body s h = (Exit x, r, es, h')"
  shows "(length (pulled es) \<le> k \<longrightarrow> for_of (cut k c) body s h0 = (Exit x, r, es, h0))
       \<and> (k < length (pulled es) \<longrightarrow>
            (\<exists>s' es'. for_of (cut k c) body s h0 = (Next s', None, es', h0)))"
  using assms(1,3)
proof (induction c h arbitrary: k s r es h' rule: run_induct)
  case (run c h)
  note p = run.prems(1)
  obtain sig e1 c1 h1 where st: "step c h = (sig, e1, c1, h1)"
    by (cases "step c h") auto
  note b = plain_step [OF p st]
  then have p1: "plain c1" by simp
  show ?case
  proof (cases "sig = Done")
    case True
    from for_of_Done [OF st [unfolded True], of body s] run.prems(2) show ?thesis by simp
  next
    case nd: False
    from b nd obtain cs where e1: "e1 = Pulled (hd (csource c)) # cs" and cs: "pulled cs = []"
      by auto
    then have pe1: "pulled e1 = [hd (csource c)]" by simp
    show ?thesis
    proof (cases k)
      case 0
      have "0 < length (pulled es)"
      proof (cases sig)
        case Done
        with nd show ?thesis by simp
      next
        case (Throw e)
        with b show ?thesis by simp
      next
        case Skip
        obtain fl' r' es' h'' where rec: "for_of c1 body s h1 = (fl', r', es', h'')"
          by (cases "for_of c1 body s h1") auto
        from for_of_Skip [OF st [unfolded Skip], of body s] rec run.prems(2) pe1
        show ?thesis by auto
      next
        case (Yield v)
        obtain out bs where bd: "body v s = (out, bs)" by (cases "body v s") auto
        show ?thesis
        proof (cases out)
          case (Exit y)
          obtain r2 fs h2 where fin: "finish (ret c1) h1 = (r2, fs, h2)"
            by (cases "finish (ret c1) h1") auto
          from for_of_Yield_Exit [where body = body and s = s, OF st [unfolded Yield] bd [unfolded Exit]]
            fin run.prems(2) pe1
          show ?thesis by auto
        next
          case (Next s')
          obtain fl' r' es' h'' where rec: "for_of c1 body s' h1 = (fl', r', es', h'')"
            by (cases "for_of c1 body s' h1") auto
          from for_of_Yield_Next [where body = body and s = s, OF st [unfolded Yield] bd [unfolded Next]]
            rec run.prems(2) pe1
          show ?thesis by auto
        qed
      qed
      with cut_0 [OF p, of body s h0] 0 show ?thesis by simp
    next
      case (Suc k')
      note tw = cut_step [OF p st nd, of k' h0]
      show ?thesis
      proof (cases sig)
        case Done
        with nd show ?thesis by simp
      next
        case (Throw e)
        with b show ?thesis by simp
      next
        case Skip
        note st' = st [unfolded Skip]
        obtain fl' r' es' h'' where rec: "for_of c1 body s h1 = (fl', r', es', h'')"
          by (cases "for_of c1 body s h1") auto
        from for_of_Skip [OF st', of body s] rec run.prems(2)
        have res: "fl' = Exit x" "r = r'" "es = e1 @ es'" "h' = h''" by simp_all
        note ih = run.IH(2) [OF st' p1 rec [unfolded res(1)], of k']
        from for_of_Skip [OF tw [unfolded Skip], of body s] ih res pe1 Suc
        show ?thesis by auto
      next
        case (Yield v)
        note st' = st [unfolded Yield]
        obtain out bs where bd: "body v s = (out, bs)" by (cases "body v s") auto
        from assms(2) [of v s] bd have pb: "pulled bs = []" by simp
        show ?thesis
        proof (cases out)
          case (Exit y)
          note bd' = bd [unfolded Exit]
          have fin: "finish (ret c1) h1 = (None, [], h1)"
            using plain_ret [OF p1] by (simp add: finish_def)
          from for_of_Yield_Exit [where body = body and s = s, OF st' bd'] fin run.prems(2)
          have res: "y = x" "r = None" "es = e1 @ bs @ []" "h' = h1" by simp_all
          have fin': "finish (ret (cut k' c1)) h0 = (None, [], h0)"
            using cut_ret [OF p1, of k'] by (simp add: finish_def)
          from for_of_Yield_Exit [where body = body and s = s, OF tw [unfolded Yield] bd'] fin'
          have "for_of (cut (Suc k') c) body s h0 = (Exit y, None, e1 @ bs @ [], h0)" by simp
          with res pe1 pb Suc show ?thesis by simp
        next
          case (Next s')
          note bd' = bd [unfolded Next]
          obtain fl' r' es' h'' where rec: "for_of c1 body s' h1 = (fl', r', es', h'')"
            by (cases "for_of c1 body s' h1") auto
          from for_of_Yield_Next [where body = body and s = s, OF st' bd'] rec run.prems(2)
          have res: "fl' = Exit x" "r = r'" "es = e1 @ bs @ es'" "h' = h''" by simp_all
          note ih = run.IH(1) [OF st' p1 rec [unfolded res(1)], of k']
          from for_of_Yield_Next [where body = body and s = s, OF tw [unfolded Yield] bd'] ih res pe1 pb Suc
          show ?thesis by auto
        qed
      qed
    qed
  qed
qed

lemma on_first_iterator:
  "chain s \<Longrightarrow> iterator (on_first k s h) = cut k (twin h (iterator s))"
  by (induction s rule: chain.induct)
     (auto simp: drop_seq_def dropWhile_seq_def filter_seq_def map_seq_def take_seq_def
        takeWhile_seq_def Sequence_of_def elems_def)

lemma answers_append [simp]: "answers pr (es @ es') = answers pr es @ answers pr es'"
  by (induction pr es rule: answers.induct) auto

lemma answers_called: "length (answers pr es) = length (called (fst pr) es)"
  by (induction pr es rule: answers.induct) auto

lemma answers_none: "called (fst pr) es = [] \<Longrightarrow> answers pr es = []"
  using answers_called [of pr es] by simp

lemma find_run_answers:
  fixes pr :: "('a, bool) callback"
  defines "body \<equiv> (\<lambda>item index. case invoke pr item index of
                       (b, ps) \<Rightarrow> (if b then Exit (Some item) else Next (index + 1), ps))"
  assumes "plain c" and "fst pr \<notin> set (clabels c)"
      and "for_of c body i h = (fl, r, es, h')"
  shows "\<exists>n. answers pr es = replicate n False @ (case fl of Exit x \<Rightarrow> [True] | Next s \<Rightarrow> [])"
  using assms(2-)
proof (induction c h arbitrary: i fl r es h' rule: run_induct)
  case (run c h)
  note p = run.prems(1) and nl = run.prems(2)
  obtain sig e1 c1 h1 where st: "step c h = (sig, e1, c1, h1)"
    by (cases "step c h") auto
  note b = plain_step [OF p st]
  then have p1: "plain c1" by simp
  have a1: "answers pr e1 = []"
    using plain_step_not_called [OF p nl st] by (rule answers_none)
  have keep: "fst pr \<notin> set (clabels c1)" if "csource c1 \<noteq> []"
    using b that nl by (cases "sig = Done") auto
  have R: "\<exists>n. answers pr es' = replicate n False @ (case fl' of Exit x \<Rightarrow> [True] | Next s \<Rightarrow> [])"
    if rec: "for_of c1 body i' h1 = (fl', r', es', h'')"
      and ih: "csource c1 \<noteq> [] \<Longrightarrow>
                 \<exists>n. answers pr es' = replicate n False @ (case fl' of Exit x \<Rightarrow> [True] | Next s \<Rightarrow> [])"
    for i' fl' r' es' h''
  proof (cases "csource c1 = []")
    case True
    from quiet_for_of [OF p1 True, of body i' h1] rec have "es' = []" "fl' = Next i'" by simp_all
    then show ?thesis by simp
  next
    case False
    then show ?thesis by (rule ih)
  qed
  show ?case
  proof (cases sig)
    case Done
    from for_of_Done [OF st [unfolded Done], of body i] run.prems(3) b Done show ?thesis
      by auto
  next
    case (Throw e)
    with b show ?thesis by simp
  next
    case Skip
    note st' = st [unfolded Skip]
    obtain fl' r' es' h'' where rec: "for_of c1 body i h1 = (fl', r', es', h'')"
      by (cases "for_of c1 body i h1") auto
    from for_of_Skip [OF st', of body i] rec run.prems(3)
    have res: "fl = fl'" "es = e1 @ es'" by simp_all
    from R [OF rec run.IH(2) [OF st' p1 keep rec]] res a1 show ?thesis by simp
  next
    case (Yield v)
    note st' = st [unfolded Yield]
    show ?thesis
    proof (cases "snd pr v i")
      case True
      have bd: "body v i = (Exit (Some v), [Called (fst pr) v i])"
        using True by (simp add: body_def invoke_def)
      have "finish (ret c1) h1 = (None, [], h1)"
        using plain_ret [OF p1] by (simp add: finish_def)
      with for_of_Yield_Exit [where body = body and s = i, OF st' bd] run.prems(3)
      have res: "fl = Exit (Some v)" "es = e1 @ [Called (fst pr) v i] @ []"
        by simp_all
      have "answers pr es = replicate 0 False @ [True]"
        using res a1 True by simp
      with res show ?thesis by (intro exI [of _ 0]) simp
    next
      case False
      have bd: "body v i = (Next (i + 1), [Called (fst pr) v i])"
        using False by (simp add: body_def invoke_def)
      obtain fl' r' es' h'' where rec: "for_of c1 body (i + 1) h1 = (fl', r', es', h'')"
        by (cases "for_of c1 body (i + 1) h1") auto
      from for_of_Yield_Next [where body = body and s = i, OF st' bd] rec run.prems(3)
      have res: "fl = fl'" "es = e1 @ [Called (fst pr) v i] @ es'"
        by simp_all
      from R [OF rec run.IH(1) [OF st' p1 keep rec]] obtain n where
        "answers pr es' = replicate n False @ (case fl' of Exit x \<Rightarrow> [True] | Next s \<Rightarrow> [])"
        by blast
      then have "answers pr es = replicate (Suc n) False @ (case fl of Exit x \<Rightarrow> [True] | Next s \<Rightarrow> [])"
        using res a1 False by simp
      then show ?thesis by blast
    qed
  qed
qed

lemma upt_snoc_last: "[0 ..< n] = xs @ [j] \<Longrightarrow> n = Suc j"
  by (cases n) auto

section \<open>Concatenation\<close>

text \<open>
  Claim C1. Iterating \<open>a.concat(b)\<close> yields the values of iterating \<open>a\<close> followed by the
  values of iterating \<open>b\<close>, also when \<open>b\<close> is a derived node such as a mapped sequence.

  \<^verbatim>\<open>ConcatSequence\<close> does not iterate \<open>b\<close>: its second \<^verbatim>\<open>yield*\<close> reads the field
  \<^verbatim>\<open>_values\<close> of \<open>b\<close>, which for a mapped \<open>b\<close> is the sequence \<open>b\<close> was mapped from. The
  theorem evaluates the code for \<open>b = Sequence.of(ys).map(f)\<close>: iterating \<open>b\<close> yields the
  transformed values, while the concatenation yields \<open>ys\<close> untransformed and never invokes
  \<open>f\<close> (the trace holds pulls only); at \<open>[1, 2]\<close> and \<open>[3, 4]\<close> with \<open>f\<close> multiplying by ten
  the result is \<open>[1, 2, 3, 4]\<close>, not \<open>[1, 2, 30, 40]\<close>.
\<close>

theorem concat_skips_operation_of_other:
  "fst (toArray (map_seq (Sequence_of ys) (l, f)) h)
     = Inr (map (\<lambda>(i, y). f y i) (zip [0 ..< length ys] ys))
   \<and> toArray (concat_seq (Sequence_of xs) (map_seq (Sequence_of ys) (l, f))) h
       = (Inr (xs @ ys), map Pulled (xs @ ys), h)
   \<and> fst (toArray (map_seq (Sequence_of [3, 4 :: int]) (0, \<lambda>x i. x * 10)) h') = Inr [30, 40]
   \<and> fst (toArray (concat_seq (Sequence_of [1, 2])
                      (map_seq (Sequence_of [3, 4 :: int]) (0, \<lambda>x i. x * 10))) h')
       = Inr [1, 2, 3, 4]"
  by (simp add: toArray_drain concat_seq_def Sequence_of_def map_seq_def drain_ConcatFst
        drain_SeqGen_array drain_map_array upt_rec)

section \<open>How far \<open>take\<close> pulls\<close>

text \<open>
  Claim C2. Draining \<open>s.take(n)\<close> over a source with more than \<open>n\<close> values pulls exactly
  \<open>n\<close> values from the source, never \<open>n + 1\<close>, and \<open>take(0)\<close> pulls none.

  The loop of \<^verbatim>\<open>TakeSequence\<close> tests \<^verbatim>\<open>taken++ < this.n\<close> on a value it has already pulled,
  so it leaves only after pulling one value more than it yields. The theorem evaluates the
  code on any array \<open>xs\<close>: the result is the first \<open>n\<close> values and the trace holds the pulls
  of the first \<open>n + 1\<close> values (all of \<open>xs\<close> if it is no longer than that); \<open>take(0)\<close> over
  \<open>[1, 2, 3]\<close> pulls the value 1.
\<close>

theorem take_pulls_one_more:
  "toArray (take_seq (Sequence_of xs) n) h
     = (Inr (take (nat n) xs), map Pulled (take (Suc (nat n)) xs), h)
   \<and> toArray (take_seq (Sequence_of [1, 2, 3 :: int]) 0) h' = (Inr [], [Pulled 1], h')"
  by (simp add: toArray_drain take_seq_def Sequence_of_def drain_take_array)

section \<open>Callbacks and nested results of the asynchronous variant\<close>

text \<open>
  Claim C3. The terminal operations of \<^verbatim>\<open>AsyncSequence\<close> behave as their synchronous
  counterparts also when callbacks or nested results are promises: \<open>findIndex(p)\<close> resolves
  to the index of the first item whose resolved predicate result is true, or to \<open>-1\<close>, and
  \<open>containsAll(vs)\<close> resolves to true exactly if the sequence contains every value of \<open>vs\<close>.

  \<^verbatim>\<open>findIndex\<close> tests \<^verbatim>\<open>predicate(item)\<close> and \<^verbatim>\<open>containsAll\<close> tests
  \<^verbatim>\<open>!this.contains(value)\<close> without \<^verbatim>\<open>await\<close> (\<^verbatim>\<open>findLastIndex\<close> awaits its predicate). The
  theorem evaluates the code: with a predicate that returns promises \<open>findIndex\<close> resolves
  to 0 on every sequence that has an item, and \<open>containsAll\<close> resolves to true for every
  sequence and every list of values; on \<open>[1, 2]\<close> and the predicate \<open>item = 2\<close> the result
  is 0 where \<open>findLastIndex\<close> gives 1, and the sequence of \<open>2\<close> alone is said to contain
  all of \<open>[1]\<close> although \<open>contains\<close> resolves to false for 1.
\<close>

theorem async_callbacks_not_awaited:
  "findIndex_async (AsyncSequence (v # vs) sz) (\<lambda>item. Promise (p item)) = Promise 0
   \<and> containsAll_async s values = Promise True
   \<and> await (findIndex_async (AsyncSequence_of [1, 2 :: int]) (\<lambda>item. Promise (item = 2))) = 0
   \<and> await (findLastIndex_async (AsyncSequence_of [1, 2 :: int]) (\<lambda>item. Promise (item = 2))) = 1
   \<and> await (containsAll_async (AsyncSequence_of [2 :: int]) [1]) = True
   \<and> await (contains_async (AsyncSequence_of [2 :: int]) 1) = False"
  by (simp add: findIndex_async_def findLastIndex_async_def AsyncSequence_of_def
        contains_async_def containsAll_async_true)

section \<open>String forms\<close>


section \<open>\<open>dropWhile\<close> and \<open>takeWhile\<close>\<close>

text \<open>
  Claim C7. For every sequence and predicate \<open>p\<close>, \<open>dropWhile(p)\<close> begins yielding at (and
  including) the first value for which \<open>p\<close> is false and yields every later value
  unconditionally, also values that satisfy \<open>p\<close> again; \<open>takeWhile(p)\<close> yields the values
  before the first value for which \<open>p\<close> is false and nothing from that value on.

  The theorem holds for every sequence \<open>s\<close> and every heap: what \<open>s.dropWhile(p)\<close> and
  \<open>s.takeWhile(p)\<close> yield is computed from what \<open>s\<close> yields by \<open>dropWhile_from\<close> and
  \<open>takeWhile_from\<close>, the predicate receiving the running index; for a predicate that
  ignores the index these are the list functions \<open>dropWhile\<close> and \<open>takeWhile\<close>. On
  \<open>[1, 2, 3, 1, 2]\<close> and \<open>item < 3\<close> the results are \<open>[3, 1, 2]\<close> and \<open>[1, 2]\<close>.
\<close>

theorem while_variants:
  "yields (dropWhile_seq s p) h = dropWhile_from (snd p) 0 (yields s h)
   \<and> yields (takeWhile_seq s p) h = takeWhile_from (snd p) 0 (yields s h)
   \<and> yields (dropWhile_seq s (l, \<lambda>item index. q item)) h = dropWhile q (yields s h)
   \<and> yields (takeWhile_seq s (l, \<lambda>item index. q item)) h = takeWhile q (yields s h)
   \<and> yields (dropWhile_seq (Sequence_of [1, 2, 3, 1, 2 :: int]) (l, \<lambda>item index. item < 3)) hi
       = [3, 1, 2]
   \<and> yields (takeWhile_seq (Sequence_of [1, 2, 3, 1, 2 :: int]) (l, \<lambda>item index. item < 3)) hi
       = [1, 2]"
proof -
  have d: "yields (dropWhile_seq s p) h = dropWhile_from (snd p) 0 (yields s h)"
    for s :: "'b sequence" and p h
    using drain_DropWhileGen [of False 0 p "iterator s" h]
    by (simp add: yields_def dropWhile_seq_def)
  have t: "yields (takeWhile_seq s p) h = takeWhile_from (snd p) 0 (yields s h)"
    for s :: "'b sequence" and p h
    by (simp add: yields_def takeWhile_seq_def drain_TakeWhileGen_values)
  show ?thesis
    by (simp add: d t dropWhile_from_plain takeWhile_from_plain yields_array)
qed

text \<open>
  Claim C10. During a full traversal of \<open>dropWhile(p)\<close> the predicate is invoked once for
  every value pulled from the source, also after yielding has begun: the number of its
  invocations is the number of source values traversed, not the length of the dropped
  prefix plus one.

  For every sequence \<open>s\<close> the traversal of \<open>s.dropWhile(p)\<close> adds one invocation of \<open>p\<close> per
  value that \<open>s\<close> yields to the invocations the traversal of \<open>s\<close> makes itself; over an
  array \<open>xs\<close> every pull is followed by the invocation of \<open>p\<close> on the pulled value with its
  index, which makes \<open>length xs\<close> invocations.
\<close>

theorem dropWhile_invokes_predicate_on_every_value:
  "calls (fst p) (trace (dropWhile_seq s p) h) = calls (fst p) (trace s h) + length (yields s h)
   \<and> trace (dropWhile_seq (Sequence_of xs) (l, q)) h
       = concat (map (\<lambda>(i, x). [Pulled x, Called l x i]) (zip [0 ..< length xs] xs))
   \<and> calls l (trace (dropWhile_seq (Sequence_of xs) (l, q)) h) = length xs"
proof -
  have a: "calls (fst p) (trace (dropWhile_seq s p) h)
             = calls (fst p) (trace s h) + length (yields s h)"
    using drain_DropWhileGen [of False 0 p "iterator s" h]
    by (simp add: yields_def trace_def dropWhile_seq_def)
  have b: "trace (dropWhile_seq (Sequence_of xs) (l, q)) h
       = concat (map (\<lambda>(i, x). [Pulled x, Called l x i]) (zip [0 ..< length xs] xs))"
    by (simp add: trace_def dropWhile_seq_def Sequence_of_def trace_dropWhile_array)
  have c0: "calls l (map Pulled xs) = 0" for xs :: "'a list"
    by (induction xs) simp_all
  have c: "calls l (trace (dropWhile_seq (Sequence_of xs) (l, q)) h) = length xs"
    using drain_DropWhileGen [of False 0 "(l, q)" "iterator (Sequence_of xs)" h]
    by (simp add: yields_def trace_def dropWhile_seq_def Sequence_of_def drain_SeqGen_array c0)
  show ?thesis using a b c by (intro conjI)
qed

section \<open>Single iteration\<close>

text \<open>
  Claim C4. A sequence built from a one-shot cursor (\<^verbatim>\<open>Sequence.from\<close> on a bare
  iterator) or constrained by \<^verbatim>\<open>constrainOnce\<close> can be traversed once: every attempt after
  the first fails with \<^verbatim>\<open>IllegalStateError\<close> before it yields a value, which is not the
  result of a traversal that ends with no values. That the first traversal succeeds holds
  for \<^verbatim>\<open>Sequence.from\<close>, but for \<^verbatim>\<open>constrainOnce\<close> only when the sequence it wraps can still
  be traversed: \<^verbatim>\<open>s.constrainOnce()\<close> wraps the generator of \<open>s\<close>, and the first traversal of
  the wrapper does what a traversal of \<open>s\<close> does at that point, so it fails when \<open>s\<close> is a
  constrained sequence that has been consumed (the last theorem of this section).

  In the theorem \<open>i\<close> is an external iterator, \<open>s\<close> a sequence and \<open>c\<close> the sequence made
  from either. The first \<open>toArray\<close> of \<open>Sequence.from(i)\<close> returns the values the iterator
  had left and empties it. When the objects of \<open>s\<close> have been allocated, the first \<open>toArray\<close>
  of \<open>s.constrainOnce()\<close> returns what \<open>toArray\<close> of \<open>s\<close> would have returned at that point,
  with the same trace; in particular it returns the values of \<open>s\<close> when \<open>toArray\<close> of \<open>s\<close>
  succeeds. Once any loop over \<open>c\<close> has run (whatever the terminal operation, to the end or
  not), in every later heap a loop over \<open>c\<close> ends at once with \<^verbatim>\<open>IllegalStateError\<close>: its
  body is never entered, the trace is empty and the heap is unchanged; \<open>toArray\<close> then
  returns the error and not the empty array.
\<close>

theorem single_iteration:
  assumes "c = fst (Sequence_from (Iterator i) h) \<or> c = fst (constrainOnce s h)"
      and "for_of (iterator c) body st ha = (fl, r, es, hb)"
      and "later hb hc"
  shows "toArray (fst (Sequence_from (Iterator i) h)) (snd (Sequence_from (Iterator i) h))
           = (Inr (elems i h), map Pulled (elems i h),
              (touch (fresh h) True (Suc (fresh h)) h)\<lparr>iters := (iters h)[i := []]\<rparr>)
       \<and> ((\<forall>oid \<in> oids (iterator s). oid < fresh h) \<longrightarrow>
            toArray (fst (constrainOnce s h)) (snd (constrainOnce s h))
              = (case toArray s h of
                   (r, es, h') \<Rightarrow> (r, es, touch (fresh h) True (Suc (fresh h)) h')))
       \<and> ((\<forall>oid \<in> oids (iterator s). oid < fresh h) \<longrightarrow>
            (\<forall>vs es' h'. toArray s h = (Inr vs, es', h') \<longrightarrow>
               toArray (fst (constrainOnce s h)) (snd (constrainOnce s h))
                 = (Inr vs, es', touch (fresh h) True (Suc (fresh h)) h')))
       \<and> for_of (iterator c) other_body other_st hc = (Next other_st, Some IllegalStateError, [], hc)
       \<and> toArray c hc = (Inl IllegalStateError, [], hc)
       \<and> fst (toArray c hc) \<noteq> Inr []"
proof -
  obtain sz it where c: "c = ConstrainedSequence sz (fresh h) it"
    using assms(1) created_constrained(1) [of i h] created_constrained(2) [of s h] by auto
  have "iterated hb (fresh h)"
    using traversal_sets_flag [OF assms(2) [unfolded c]] .
  then have fl: "iterated hc (fresh h)"
    using assms(3) by (simp add: later_def)
  have t: "toArray c hc = (Inl IllegalStateError, [], hc)"
    unfolding c by (rule toArray_consumed [OF fl])
  have f: "for_of (iterator c) other_body other_st hc = (Next other_st, Some IllegalStateError, [], hc)"
    unfolding c iterator.simps by (rule constrained_consumed(1) [OF fl])
  have w: "toArray (fst (constrainOnce s h)) (snd (constrainOnce s h))
             = (case toArray s h of
                  (r, es, h') \<Rightarrow> (r, es, touch (fresh h) True (Suc (fresh h)) h'))"
    if "\<forall>oid \<in> oids (iterator s). oid < fresh h"
    using toArray_constrainOnce [OF that] .
  have w': "\<forall>vs es' h'. toArray s h = (Inr vs, es', h') \<longrightarrow>
               toArray (fst (constrainOnce s h)) (snd (constrainOnce s h))
                 = (Inr vs, es', touch (fresh h) True (Suc (fresh h)) h')"
    if "\<forall>oid \<in> oids (iterator s). oid < fresh h"
    using w [OF that] by simp
  have u: "fst (toArray c hc) \<noteq> Inr []"
    using t by simp
  from toArray_from_any_iterator [of i h] w w' f t u show ?thesis
    by blast
qed

theorem single_iteration_witness:
  "(case Sequence_from (Iterator 0) example_heap of (c1, h1) \<Rightarrow>
      (case constrainOnce c1 h1 of (c2, h2) \<Rightarrow>
         (case toArray c2 h2 of (r, es, h3) \<Rightarrow>
            r = Inr [1, 2, 3]
            \<and> toArray c2 h3 = (Inl IllegalStateError, [], h3)
            \<and> first c2 h3 = (Inl IllegalStateError, [], h3))))"
proof -
  let ?c1 = "fst (Sequence_from (Iterator 0) example_heap)"
  let ?h1 = "snd (Sequence_from (Iterator 0) example_heap)"
  let ?c2 = "fst (constrainOnce ?c1 ?h1)"
  let ?h2 = "snd (constrainOnce ?c1 ?h1)"
  let ?body = "\<lambda>item (index :: nat, result :: int list).
                 (Next (index + 1, result @ [item]) :: (nat \<times> int list, int list) flow,
                  [] :: int event list)"
  have a2: "\<forall>oid \<in> oids (iterator ?c1). oid < fresh ?h1"
    by (simp add: example_heap_def new_ConstrainedSequence_def)
  have a3: "?c2 = fst (Sequence_from (Iterator 0) ?h1) \<or> ?c2 = fst (constrainOnce ?c1 ?h1)"
    by simp
  obtain fl r es hb where a4: "for_of (iterator ?c2) ?body (0, []) ?h2 = (fl, r, es, hb)"
    by (cases "for_of (iterator ?c2) ?body (0, []) ?h2") auto
  have hb: "snd (snd (toArray ?c2 ?h2)) = hb"
    using a4 unfolding toArray_def fold_seq_def
    by (auto split: flow.splits option.splits prod.splits)
  note inst = single_iteration [OF a3 a4 later_refl,
      where other_body = "\<lambda>item (u :: unit). (Exit (Some item) :: (unit, int option) flow, [] :: int event list)"
        and other_st = "()"]
  have fst_c: "first ?c2 hb = (Inl IllegalStateError, [], hb)"
    using inst by (simp add: first_def)
  have src: "fst (toArray ?c1 ?h1) = Inr [1, 2, 3]"
    using toArray_from_iterator [of 0 example_heap] by (simp add: example_heap_def)
  have r: "fst (toArray ?c2 ?h2) = Inr [1, 2, 3]"
    using inst a2 src by (simp split: prod.splits)
  have t: "toArray ?c2 hb = (Inl IllegalStateError, [], hb)"
    using inst by simp
  show ?thesis
    using t hb fst_c r
    by (cases "Sequence_from (Iterator 0) example_heap";
        cases "constrainOnce ?c1 ?h1"; cases "toArray ?c2 ?h2") auto
qed

text \<open>
  \<^verbatim>\<open>c1 = Sequence.from(iterator); c1.toArray(); c2 = c1.constrainOnce(); c2.toArray()\<close>: the
  first traversal of \<open>c2\<close> throws \<^verbatim>\<open>IllegalStateError\<close> and yields nothing, because \<open>c1\<close> has
  been consumed.
\<close>

theorem constrainOnce_of_consumed_fails:
  "(case Sequence_from (Iterator 0) example_heap of (c1, h1) \<Rightarrow>
      (case toArray c1 h1 of (r1, es1, h2) \<Rightarrow>
         (case constrainOnce c1 h2 of (c2, h3) \<Rightarrow>
            r1 = Inr [1, 2, 3]
            \<and> fst (toArray c2 h3) = Inl IllegalStateError
            \<and> fst (snd (toArray c2 h3)) = [])))"
  by (simp add: new_ConstrainedSequence_def constrainOnce_def example_heap_def
        toArray_drain drain.simps)

section \<open>\<open>reduce\<close>\<close>

text \<open>
  Claim C9. \<^verbatim>\<open>reduce\<close> on a non-empty sequence traverses its receiver three times (for
  \<^verbatim>\<open>isEmpty()\<close>, for \<^verbatim>\<open>first()\<close> and for the loop over \<^verbatim>\<open>drop(1)\<close>); so the very first
  \<^verbatim>\<open>reduce\<close> on a non-empty constrained sequence throws \<^verbatim>\<open>IllegalStateError\<close> instead of
  returning the reduction, and upstream callbacks are invoked again in each traversal.

  The hypothesis says that the receiver is not empty: \<^verbatim>\<open>isEmpty()\<close> returned false, with
  trace \<open>es1\<close> and heap \<open>h1\<close>. Then \<open>reduce\<close> is \<^verbatim>\<open>first()\<close> from \<open>h1\<close> followed by a full
  traversal of \<open>drop(1)\<close>, the three traces one after the other. If the receiver is a
  \<^verbatim>\<open>ConstrainedSequence\<close> the result is \<^verbatim>\<open>IllegalStateError\<close>, thrown by \<^verbatim>\<open>first()\<close>. For a
  mapped array the trace of \<open>reduce\<close> holds the pull of the first element and the
  invocation of the transform on it three times, and those of every other element once.
\<close>

theorem reduce_traverses_three_times:
  assumes "isEmpty s h = (Inr False, es1, h1)"
  shows "reduce s operation h =
           (case first s h1 of
              (Inl e, es2, h2) \<Rightarrow> (Inl e, es1 @ es2, h2)
            | (Inr result0, es2, h2) \<Rightarrow>
                (case drain (iterator (drop_seq s 1)) h2 of
                   (vs, None, es3, h3) \<Rightarrow>
                     (Inr (Result (foldi (\<lambda>acc item index. Some (operation acc item index))
                                     0 result0 vs)),
                      es1 @ es2 @ es3, h3)
                 | (vs, Some e, es3, h3) \<Rightarrow> (Inl e, es1 @ es2 @ es3, h3)))
       \<and> (s = ConstrainedSequence sz oid it \<longrightarrow>
            reduce s operation h = (Inl IllegalStateError, es1, h1))
       \<and> trace_of (drain (iterator (drop_seq (map_seq (Sequence_of (x # xs)) (l, f)) 1)) h')
            = concat (map (\<lambda>(i, y). [Pulled y, Called l y i]) (zip [0 ..< Suc (length xs)] (x # xs)))
       \<and> snd (reduce (map_seq (Sequence_of (x # xs)) (l, f)) operation' h')
            = ([Pulled x, Called l x 0] @ [Pulled x, Called l x 0]
                 @ concat (map (\<lambda>(i, y). [Pulled y, Called l y i])
                             (zip [0 ..< Suc (length xs)] (x # xs))), h')"
proof -
  note a = reduce_unfold [OF assms, of operation]
  have b: "reduce s operation h = (Inl IllegalStateError, es1, h1)"
    if "s = ConstrainedSequence sz oid it"
  proof -
    from assms that
    have ie: "isEmpty (ConstrainedSequence sz oid it) h = (Inr False, es1, h1)" by simp
    from reduce_unfold [OF ie, of operation] isEmpty_sets_flag [OF ie] show ?thesis
      by (simp add: that first_consumed)
  qed
  have c: "trace_of (drain (iterator (drop_seq (map_seq (Sequence_of (x # xs)) (l, f)) 1)) h')
            = concat (map (\<lambda>(i, y). [Pulled y, Called l y i]) (zip [0 ..< Suc (length xs)] (x # xs)))"
    by (simp add: drop_seq_def map_seq_def Sequence_of_def drain_DropGen drain_map_array
          del: upt_Suc)
  have e: "isEmpty (map_seq (Sequence_of (x # xs)) (l, f)) h' = (Inr False, [Pulled x, Called l x 0], h')"
    by (simp add: isEmpty_first first_map_array)
  have d: "snd (reduce (map_seq (Sequence_of (x # xs)) (l, f)) operation' h')
            = ([Pulled x, Called l x 0] @ [Pulled x, Called l x 0]
                 @ concat (map (\<lambda>(i, y). [Pulled y, Called l y i])
                             (zip [0 ..< Suc (length xs)] (x # xs))), h')"
    unfolding reduce_unfold [OF e] first_map_array
    by (simp add: drop_seq_def map_seq_def Sequence_of_def drain_DropGen drain_map_array
          del: upt_Suc)
  show ?thesis using a b c d by blast
qed

theorem reduce_traverses_three_times_witness:
  "(case Sequence_from (Iterator 0) example_heap of (c, h0) \<Rightarrow>
      isEmpty c h0 = (Inr False, [Pulled 1, Pulled 2],
                      h0\<lparr>iterated := (iterated h0)(0 := True), iters := [[3]]\<rparr>)
      \<and> fst (reduce c (\<lambda>acc item index. (case acc of None \<Rightarrow> item | Some a \<Rightarrow> a + item)) h0)
          = Inl IllegalStateError)"
proof -
  let ?c = "fst (Sequence_from (Iterator 0) example_heap)"
  let ?h0 = "snd (Sequence_from (Iterator 0) example_heap)"
  have c: "?c = ConstrainedSequence (- 1) 0 (ExtIt 0)"
    by (simp add: new_ConstrainedSequence_def example_heap_def)
  have e: "isEmpty ?c ?h0 = (Inr False, [Pulled 1, Pulled 2],
                      ?h0\<lparr>iterated := (iterated ?h0)(0 := True), iters := [[3]]\<rparr>)"
    by (simp add: isEmpty_def new_ConstrainedSequence_def example_heap_def for_of.simps
          finish_def drain.simps)
  have "reduce ?c (\<lambda>acc item index. (case acc of None \<Rightarrow> item | Some a \<Rightarrow> a + item)) ?h0
          = (Inl IllegalStateError, [Pulled 1, Pulled 2],
             ?h0\<lparr>iterated := (iterated ?h0)(0 := True), iters := [[3]]\<rparr>)"
    using reduce_traverses_three_times [OF e,
        where operation = "\<lambda>acc item index. (case acc of None \<Rightarrow> item | Some a \<Rightarrow> a + item)"
          and sz = "- 1" and oid = 0 and it = "ExtIt 0", THEN conjunct2, THEN conjunct1] c
    by (rule mp)
  with e show ?thesis
    by (cases "Sequence_from (Iterator 0) example_heap") auto
qed

section \<open>Laziness\<close>

text \<open>
  Claim C6. The operations that build a chain (\<open>map_seq\<close>, \<open>filter_seq\<close>, \<open>take_seq\<close>, \<open>drop_seq\<close>,
  \<open>takeWhile_seq\<close>, \<open>dropWhile_seq\<close>) only construct a node: they return a sequence and no
  trace, so no callback is invoked before a terminal operation starts a traversal. When \<^verbatim>\<open>find\<close>
  on a chain with distinct callbacks, over an array or over a one-shot iterator, returns a
  match \<open>v\<close>, the trace \<open>es\<close> of that call starts with the pull of the first value of the
  source and its last invocation of a callback is that of the predicate on \<open>v\<close>, which
  returned true, after it had returned false at each of its earlier invocations. Up to the
  match exactly the first \<open>m\<close> values of the source were pulled, and \<open>m\<close> is the number of
  values that are needed for the match: \<^verbatim>\<open>find\<close> on the same operations over only the first
  \<open>m\<close> values returns \<open>v\<close> with the same trace up to the match, and over fewer values it finds
  nothing. After the match nothing happens over an array, and over an iterator at most the
  next value is pulled (by the \<^verbatim>\<open>finally\<close> block of the constrained sequence). Every callback
  of the chain was invoked with the indices \<open>0, 1, 2, \<dots>\<close> in turn and at most \<open>m\<close> times; a
  callback that every pulled value reaches (only \<^verbatim>\<open>map\<close> operations come before it) was
  invoked exactly \<open>m\<close> times, and so was the predicate of \<^verbatim>\<open>find\<close> when the chain consists of
  \<^verbatim>\<open>map\<close> operations only.
\<close>

theorem find_is_lazy:
  assumes "chain s" and "distinct (fst predicate # labels s)"
      and "find_seq s predicate h = (Inr (Some v), es, h')"
  shows "\<exists>m j es0 fs.
           es = es0 @ [Called (fst predicate) v j] @ fs \<and> snd predicate v j
         \<and> hd es = Pulled (hd (elements s h))
         \<and> pulled es0 = take m (elements s h) \<and> length (pulled es0) = m
         \<and> (fs = [] \<or> (\<exists>x. fs = [Pulled x]))
         \<and> pulled es = take (m + length fs) (elements s h)
         \<and> (over_array s \<longrightarrow> fs = [] \<and> h' = h)
         \<and> (\<forall>l \<in> set (labels s).
               called l es = [0 ..< length (called l es)] \<and> length (called l es) \<le> m)
         \<and> (\<forall>l. sees_all l s \<longrightarrow> called l es = [0 ..< m])
         \<and> called (fst predicate) es = [0 ..< Suc j] \<and> Suc j \<le> m
         \<and> (maps_only s \<longrightarrow> Suc j = m)
         \<and> answers predicate es = replicate j False @ [True]
         \<and> find_seq (on_first m s h) predicate h
             = (Inr (Some v), es0 @ [Called (fst predicate) v j], h)
         \<and> (\<forall>k < m. fst (find_seq (on_first k s h) predicate h) = Inr None)"
proof -
  let ?body = "\<lambda>item index. case invoke predicate item index of
                 (b, ps) \<Rightarrow> (if b then Exit (Some item) else Next (index + 1), ps)"
  let ?lp = "fst predicate"
  let ?ct = "twin h (iterator s)"
  note ci = chain_iterator [OF assms(1), of h]
  obtain fl r es1 h1 where f: "for_of (iterator s) ?body 0 h = (fl, r, es1, h1)"
    by (cases "for_of (iterator s) ?body 0 h") auto
  from assms(3) f have r: "r = None" and fl: "fl = Exit (Some v)" and es: "es = es1"
    and h': "h' = h1"
    by (auto simp: find_seq_def split: flow.splits option.splits)
  have sg: "staged h (iterator s)"
  proof (rule ccontr)
    assume "\<not> staged h (iterator s)"
    from for_of_Throw [OF chain_consumed [OF assms(1) this], of ?body 0] f r show False
      by simp
  qed
  from twin_for_of [OF sg f, of h] obtain es_t fs where
    t: "for_of ?ct ?body 0 h = (fl, r, es_t, h)" and split: "es1 = es_t @ fs"
    and fs: "fs = [] \<or> (\<exists>x. fs = [Pulled x])"
    by blast
  have d: "distinct (clabels ?ct)" and nl: "?lp \<notin> set (clabels ?ct)"
    using assms(2) ci by simp_all
  from find_run [OF _ d nl t] ci
  have adv: "advanced ?lp ?ct 0 es_t" and exa: "exact ?lp ?ct es_t"
    and ex: "\<forall>x. fl = Exit x \<longrightarrow>
               (\<exists>w es0 j. x = Some w \<and> es_t = es0 @ [Called ?lp w j] \<and> snd predicate w j)"
    by simp_all
  from ex fl obtain es0 j where
    e0: "es_t = es0 @ [Called ?lp v j]" and m: "snd predicate v j"
    by auto
  have pf: "pulled fs = map (\<lambda>e. case e of Pulled x \<Rightarrow> x) fs" and cf: "\<And>l. called l fs = []"
    and lf: "length (pulled fs) = length fs"
    using fs by auto
  have ce: "\<And>l. called l es = called l es_t"
    using es split cf by simp
  let ?m = "length (pulled es_t)"
  from adv have
    a1: "pulled es_t = take ?m (csource ?ct)"
    and a2: "\<forall>l \<in> set (clabels ?ct).
               called l es_t = [cindex l ?ct ..< cindex l ?ct + length (called l es_t)]
               \<and> length (called l es_t) \<le> ?m"
    and a3: "called ?lp es_t = [0 ..< 0 + length (called ?lp es_t)]"
    and a4: "length (called ?lp es_t) \<le> ?m"
    and a5: "es_t \<noteq> [] \<longrightarrow> hd es_t = Pulled (hd (csource ?ct))"
    by (simp_all add: advanced_def)
  have "called ?lp es_t = called ?lp es0 @ [j]"
    using e0 by simp
  with a3 have n: "length (called ?lp es_t) = Suc j"
    using upt_snoc_last [of "length (called ?lp es_t)" "called ?lp es0" j]
    by simp
  have c1: "es = es0 @ [Called ?lp v j] @ fs"
    using es split e0 by simp
  have c2: "hd es = Pulled (hd (elements s h))"
    using a5 e0 ci es split by (cases es0) auto
  have p0: "pulled es0 = pulled es_t"
    using e0 by simp
  have c3: "pulled es0 = take ?m (elements s h)" and c4: "length (pulled es0) = ?m"
    using a1 ci p0 by simp_all
  have "pulled (snd (?body w i)) = []" for w i
    by (simp add: invoke_def)
  from for_of_prefix [OF sg this f] ci obtain ys where "elements s h = pulled es @ ys"
    using es by auto
  then have "pulled es = take (length (pulled es)) (elements s h)"
    by simp
  moreover have "length (pulled es) = ?m + length fs"
    using es split lf by simp
  ultimately have c5: "pulled es = take (?m + length fs) (elements s h)"
    by simp
  have c6: "over_array s \<longrightarrow> fs = [] \<and> h' = h"
  proof
    assume "over_array s"
    from over_array_iterator [OF this, of h] t f h' split show "fs = [] \<and> h' = h"
      by simp
  qed
  have c7: "\<forall>l \<in> set (labels s). called l es = [0 ..< length (called l es)]
              \<and> length (called l es) \<le> ?m"
  proof
    fix l assume l: "l \<in> set (labels s)"
    with a2 ci chain_iterator [OF assms(1), of h l] ce [of l] show
      "called l es = [0 ..< length (called l es)] \<and> length (called l es) \<le> ?m"
      by auto
  qed
  have c8: "\<forall>l. sees_all l s \<longrightarrow> called l es = [0 ..< ?m]"
  proof (intro allI impI)
    fix l assume l: "sees_all l s"
    from sees_all_iterator [OF l, of h] have dl: "direct l ?ct" .
    with exa have len: "length (called l es_t) = ?m"
      by (simp add: exact_def)
    from direct_label [OF dl] ci have "l \<in> set (labels s)" by simp
    with c7 len ce [of l] show "called l es = [0 ..< ?m]" by auto
  qed
  have c9: "called ?lp es = [0 ..< Suc j]" and c10: "Suc j \<le> ?m"
    using a3 a4 n ce [of ?lp] by simp_all
  have c11: "maps_only s \<longrightarrow> Suc j = ?m"
    using exa n maps_only_iterator [of s h] by (auto simp: exact_def)
  have pl: "plain ?ct"
    using ci by simp
  from find_run_answers [OF pl nl t] fl obtain n where
    an: "answers predicate es_t = replicate n False @ [True]"
    by auto
  have "length (answers predicate es_t) = Suc j"
    using n by (simp add: answers_called)
  with an have "n = j" by simp
  moreover have "answers predicate fs = []"
    using cf [of ?lp] by (rule answers_none)
  ultimately have c12: "answers predicate es = replicate j False @ [True]"
    using an es split by simp
  have nb: "pulled (snd (?body w i)) = []" for w i
    by (simp add: invoke_def)
  note cf_of = cut_for_of [of ?ct ?body 0 h "Some v" r es_t h _ h, OF pl nb t [unfolded fl]]
  have c13: "find_seq (on_first ?m s h) predicate h = (Inr (Some v), es0 @ [Called ?lp v j], h)"
    using cf_of [of ?m] r e0
    by (simp add: find_seq_def on_first_iterator [OF assms(1)])
  have c14: "\<forall>k < ?m. fst (find_seq (on_first k s h) predicate h) = Inr None"
  proof (intro allI impI)
    fix k assume "k < ?m"
    with cf_of [of k] obtain s' es' where
      "for_of (cut k ?ct) ?body 0 h = (Next s', None, es', h)"
      by blast
    then show "fst (find_seq (on_first k s h) predicate h) = Inr None"
      by (simp add: find_seq_def on_first_iterator [OF assms(1)])
  qed
  show ?thesis
    using c1 m c2 c3 c4 fs c5 c6 c7 c8 c9 c10 c11 c12 c13 c14 by blast
qed

theorem find_is_lazy_witness:
  "(case find_seq example_chain (3, \<lambda>item index. item = 4)
           (snd (Sequence_from (Iterator 0) example_heap)) of
      (res, es, h') \<Rightarrow>
        res = Inr (Some 4)
      \<and> es = [Pulled 1, Called 1 1 0, Called 2 2 0,
               Pulled 2, Called 1 2 1, Called 2 4 1, Called 3 4 0,
               Pulled 3]
      \<and> (\<exists>m j es0 fs.
            es = es0 @ [Called 3 4 j] @ fs
          \<and> pulled es0 = take m [1, 2, 3] \<and> length (pulled es0) = m
          \<and> (fs = [] \<or> (\<exists>x. fs = [Pulled x]))
          \<and> pulled es = take (m + length fs) [1, 2, 3]
          \<and> called 1 es = [0 ..< m] \<and> called 2 es = [0 ..< m]
          \<and> called 3 es = [0 ..< Suc j] \<and> Suc j \<le> m
          \<and> answers (3, \<lambda>item index. item = 4) es = replicate j False @ [True]
          \<and> find_seq (on_first m example_chain (snd (Sequence_from (Iterator 0) example_heap)))
                (3, \<lambda>item index. item = 4) (snd (Sequence_from (Iterator 0) example_heap))
              = (Inr (Some 4), es0 @ [Called 3 4 j], snd (Sequence_from (Iterator 0) example_heap))
          \<and> fst (find_seq (on_first 1 example_chain (snd (Sequence_from (Iterator 0) example_heap)))
                (3, \<lambda>item index. item = 4) (snd (Sequence_from (Iterator 0) example_heap)))
              = Inr None))"
proof -
  let ?h = "snd (Sequence_from (Iterator 0) example_heap)"
  let ?p = "(3 :: nat, \<lambda>(item :: int) (index :: nat). item = 4)"
  let ?es = "[Pulled 1, Called 1 1 0, Called 2 2 0,
              Pulled 2, Called 1 2 1, Called 2 4 1, Called 3 4 0,
              Pulled 3] :: int event list"
  have c: "chain example_chain"
    by (simp add: example_chain_def filter_seq_def map_seq_def new_ConstrainedSequence_def)
  have d: "distinct (fst ?p # labels example_chain)"
    by (simp add: example_chain_def filter_seq_def map_seq_def new_ConstrainedSequence_def)
  have f: "find_seq example_chain ?p ?h
             = (Inr (Some 4), ?es, ?h\<lparr>iterated := (iterated ?h)(0 := True), iters := [[]]\<rparr>)"
    by (simp add: find_seq_def example_chain_def example_heap_def filter_seq_def map_seq_def
          new_ConstrainedSequence_def for_of.simps invoke_def finish_def drain.simps)
  have e: "elements example_chain ?h = [1, 2, 3]"
    by (simp add: example_chain_def example_heap_def filter_seq_def map_seq_def
          new_ConstrainedSequence_def elems_def)
  have s1: "sees_all 1 example_chain" and s2: "sees_all 2 example_chain"
    by (simp_all add: example_chain_def filter_seq_def map_seq_def new_ConstrainedSequence_def)
  from find_is_lazy [OF c d f]
  obtain m j es0 fs where
    "?es = es0 @ [Called (fst ?p) 4 j] @ fs"
    "pulled es0 = take m (elements example_chain ?h)" "length (pulled es0) = m"
    "fs = [] \<or> (\<exists>x. fs = [Pulled x])"
    "pulled ?es = take (m + length fs) (elements example_chain ?h)"
    "\<forall>l. sees_all l example_chain \<longrightarrow> called l ?es = [0 ..< m]"
    "called (fst ?p) ?es = [0 ..< Suc j]" "Suc j \<le> m"
    "answers ?p ?es = replicate j False @ [True]"
    "find_seq (on_first m example_chain ?h) ?p ?h = (Inr (Some 4), es0 @ [Called (fst ?p) 4 j], ?h)"
    "\<forall>k < m. fst (find_seq (on_first k example_chain ?h) ?p ?h) = Inr None"
    by blast
  note facts = this
  from facts(6) s1 s2 have cl: "called 1 ?es = [0 ..< m]" "called 2 ?es = [0 ..< m]"
    by blast+
  have "length (called 1 ?es) = length [0 ..< m]"
    using cl(1) by (rule arg_cong)
  then have "1 < m" by simp
  with facts(11) have low: "fst (find_seq (on_first 1 example_chain ?h) ?p ?h) = Inr None"
    by blast
  note inst = facts(1-5,7-10) [unfolded e fst_conv]
  have "\<exists>m j es0 fs.
            ?es = es0 @ [Called 3 4 j] @ fs
          \<and> pulled es0 = take m [1, 2, 3] \<and> length (pulled es0) = m
          \<and> (fs = [] \<or> (\<exists>x. fs = [Pulled x]))
          \<and> pulled ?es = take (m + length fs) [1, 2, 3]
          \<and> called 1 ?es = [0 ..< m] \<and> called 2 ?es = [0 ..< m]
          \<and> called 3 ?es = [0 ..< Suc j] \<and> Suc j \<le> m
          \<and> answers ?p ?es = replicate j False @ [True]
          \<and> find_seq (on_first m example_chain ?h) ?p ?h = (Inr (Some 4), es0 @ [Called 3 4 j], ?h)
          \<and> fst (find_seq (on_first 1 example_chain ?h) ?p ?h) = Inr None"
    apply (rule exI [of _ m], rule exI [of _ j], rule exI [of _ es0], rule exI [of _ fs])
    apply (intro conjI)
    apply (rule inst cl low)+
    done
  with f show ?thesis by simp
qed

end
